theory Spec2Isabelle
  imports Complex_Main "HOL-Library.Multiset"
begin

section \<open>Data model\<close>

text \<open>
  The kernels of \<open>libpoint_adjoint.pyx\<close> work on typed memoryviews with bounds checking
  and wrap-around switched off. A one-dimensional view \<open>t[::1]\<close> is a list; a
  C-contiguous two-dimensional view \<open>t[:, ::1]\<close> is its shape together with the flat
  row-major buffer, so that \<open>A[i, j]\<close> is the cell \<open>i * shape1 A + j\<close> of the buffer, as
  in the generated C. Indices and the decimation factor are \<open>Py_ssize_t\<close>, modelled
  as \<open>int\<close> with no wrap-around: when the extent \<open>R*M\<close> of the output fits the type, every
  index expression of the kernels is bounded by the size of an allocated array. A
  decimation factor so large that \<open>R*M\<close> itself wraps is outside the model.

  The numeric type is a parameter. The fused types of the source (real or complex
  waveform, complex signal) are promoted to the complex signal type before the
  product is taken, so one type \<open>'a\<close> stands for all of them; the kernels only need
  \<open>0\<close>, \<open>+\<close> and \<open>*\<close> of it.
\<close>

datatype failure = NegativeDimensions | OutOfBounds | ZeroStep | ShapeMismatch

record 'a memview2 =
  shape0 :: nat
  shape1 :: nat
  buf :: "'a list"

definition contiguous :: "'a memview2 \<Rightarrow> bool" where
  "contiguous A \<longleftrightarrow> length (buf A) = shape0 A * shape1 A"

text \<open>Sequencing of fallible steps: the first failure ends the call.\<close>

definition and_then :: "failure + 'a \<Rightarrow> ('a \<Rightarrow> failure + 'b) \<Rightarrow> failure + 'b" where
  "and_then r f = (case r of Inl e \<Rightarrow> Inl e | Inr v \<Rightarrow> f v)"

text \<open>
  Unchecked element access (\<open>boundscheck(False)\<close>, \<open>wraparound(False)\<close>): an access
  outside the buffer is undefined behaviour in the generated C; the model makes it the
  outcome \<open>OutOfBounds\<close>.
\<close>

definition rd1 :: "'a list \<Rightarrow> int \<Rightarrow> failure + 'a" where
  "rd1 xs i = (if 0 \<le> i \<and> i < int (length xs) then Inr (xs ! nat i) else Inl OutOfBounds)"

definition rd2 :: "'a memview2 \<Rightarrow> int \<Rightarrow> int \<Rightarrow> failure + 'a" where
  "rd2 A i j = rd1 (buf A) (i * int (shape1 A) + j)"

definition wr2 :: "'a memview2 \<Rightarrow> int \<Rightarrow> int \<Rightarrow> 'a \<Rightarrow> failure + 'a memview2" where
  "wr2 A i j v =
     (let k = i * int (shape1 A) + j
      in if 0 \<le> k \<and> k < int (length (buf A))
         then Inr (A\<lparr>buf := (buf A)[nat k := v]\<rparr>)
         else Inl OutOfBounds)"

text \<open>
  \<open>np.PyArray_EMPTY(2, [d0, d1], ...)\<close>: a fresh array whose cells are not initialised
  (\<open>None\<close>); a negative dimension raises \<open>ValueError\<close>.
\<close>

definition PyArray_EMPTY :: "int \<Rightarrow> int \<Rightarrow> failure + 'a option memview2" where
  "PyArray_EMPTY d0 d1 =
     (if d0 < 0 \<or> d1 < 0 then Inl NegativeDimensions
      else Inr \<lparr>shape0 = nat d0, shape1 = nat d1, buf = replicate (nat d0 * nat d1) None\<rparr>)"

text \<open>
  With \<open>cdivision(True)\<close> the operator \<open>//\<close> on C integers is the division of C, which
  truncates towards zero. The kernels divide by \<open>R\<close> inside the loop over \<open>p\<close> only, which
  has no iteration when \<open>R = 0\<close>: a division by zero is never reached.
\<close>

definition c_div :: "int \<Rightarrow> int \<Rightarrow> int" where
  "c_div a b = sgn a * sgn b * (\<bar>a\<bar> div \<bar>b\<bar>)"

text \<open>\<open>xrange(a, b)\<close> and \<open>prange(n)\<close>: the indices \<open>a, a + 1, ..., b - 1\<close> in this order.\<close>

definition xrange :: "int \<Rightarrow> int \<Rightarrow> int list" where
  "xrange a b = map (\<lambda>k. a + int k) [0..<nat (b - a)]"

definition prange :: "int \<Rightarrow> int list" where
  "prange n = xrange 0 n"

fun for_loop :: "'i list \<Rightarrow> ('i \<Rightarrow> 's \<Rightarrow> failure + 's) \<Rightarrow> 's \<Rightarrow> failure + 's" where
  "for_loop [] body s = Inr s"
| "for_loop (i # is) body s = and_then (body i s) (for_loop is body)"

section \<open>Index window\<close>

definition mstart :: "int \<Rightarrow> int \<Rightarrow> int" where
  "mstart R p = c_div (p - 1 + R) R"

definition mstop :: "int \<Rightarrow> int \<Rightarrow> int \<Rightarrow> int \<Rightarrow> int" where
  "mstop R L M p = min M (c_div (p + L - 1) R + 1)"

section \<open>DirectSum\<close>

text \<open>
  The accumulation of one output element: \<open>xnp = 0\<close>, then
  \<open>xnp = xnp + s_conj[R*m - p]*dftmat[n, m]*y[m]\<close> for \<open>m\<close> in \<open>xrange(mstart, mstop)\<close>.
\<close>

definition accumulate ::
  "'a::{zero,plus,times} list \<Rightarrow> 'a memview2 \<Rightarrow> int \<Rightarrow> 'a list \<Rightarrow> int \<Rightarrow> int \<Rightarrow> int \<Rightarrow> int
     \<Rightarrow> failure + 'a" where
  "accumulate s_conj dftmat R y p n m0 m1 =
     for_loop (xrange m0 m1)
       (\<lambda>m xnp. and_then (rd1 s_conj (R * m - p)) (\<lambda>a.
                 and_then (rd2 dftmat n m) (\<lambda>b.
                 and_then (rd1 y m) (\<lambda>c. Inr (xnp + a * b * c))))) 0"

text \<open>The body of the loop over \<open>p\<close>: one column of the output.\<close>

definition direct_sum_column ::
  "'a::{zero,plus,times} list \<Rightarrow> 'a memview2 \<Rightarrow> int \<Rightarrow> 'a list \<Rightarrow> int
     \<Rightarrow> 'a option memview2 \<Rightarrow> failure + 'a option memview2" where
  "direct_sum_column s_conj dftmat R y p x =
     (let L = int (length s_conj); N = int (shape0 dftmat); M = int (shape1 dftmat);
          m0 = mstart R p; m1 = mstop R L M p
      in for_loop (xrange 0 N)
           (\<lambda>n x. and_then (accumulate s_conj dftmat R y p n m0 m1)
                     (\<lambda>xnp. wr2 x n p (Some xnp))) x)"

text \<open>
  The kernel with the iterations of the \<open>prange\<close> loop run in the order \<open>ps\<close>, and the
  kernel itself, which runs them in the order of the loop.
\<close>

definition direct_sum_in_order ::
  "int list \<Rightarrow> 'a::{zero,plus,times} list \<Rightarrow> 'a memview2 \<Rightarrow> int \<Rightarrow> 'a list
     \<Rightarrow> failure + 'a option memview2" where
  "direct_sum_in_order ps s_conj dftmat R y =
     (let N = int (shape0 dftmat); M = int (shape1 dftmat)
      in and_then (PyArray_EMPTY N (R * M))
           (for_loop ps (direct_sum_column s_conj dftmat R y)))"

definition direct_sum ::
  "'a::{zero,plus,times} list \<Rightarrow> 'a memview2 \<Rightarrow> int \<Rightarrow> 'a list \<Rightarrow> failure + 'a option memview2" where
  "direct_sum s_conj dftmat R y =
     direct_sum_in_order (prange (R * int (shape1 dftmat))) s_conj dftmat R y"

definition DirectSumCython ::
  "complex list \<Rightarrow> complex memview2 \<Rightarrow> int \<Rightarrow> complex list \<Rightarrow> failure + complex option memview2" where
  "DirectSumCython s dftmat R = (let s_conj = map cnj s in (\<lambda>y. direct_sum s_conj dftmat R y))"

section \<open>CodeFreq\<close>

text \<open>
  The scratch buffers are shared by all calls of one constructed operator: the callable
  takes their state and returns it updated. The transform executor is not code of this
  repository: it is the parameter \<open>fft\<close>, a function from the contents of its input
  buffer \<open>demodpad\<close> to the new contents of its output buffer \<open>x_aligned\<close>.
\<close>

record 'a scratch =
  demodpad :: "'a memview2"
  x_aligned :: "'a memview2"

text \<open>
  The body of the loop over \<open>p\<close>:
  \<open>demodpad[p, m] = s_conj_over_sqrtN[R*m - p]*y[m]\<close> for \<open>m\<close> in \<open>xrange(mstart, mstop)\<close>.
\<close>

definition demodulate_row ::
  "'a::times list \<Rightarrow> int \<Rightarrow> int \<Rightarrow> 'a list \<Rightarrow> int \<Rightarrow> 'a memview2 \<Rightarrow> failure + 'a memview2" where
  "demodulate_row s_conj_over_sqrtN R M y p dpad =
     (let L = int (length s_conj_over_sqrtN); m0 = mstart R p; m1 = mstop R L M p
      in for_loop (xrange m0 m1)
           (\<lambda>m dpad. and_then (rd1 s_conj_over_sqrtN (R * m - p)) (\<lambda>a.
                      and_then (rd1 y m) (\<lambda>c. wr2 dpad p m (a * c)))) dpad)"

text \<open>
  The slice \<open>[::step]\<close> of an axis of the given extent, as the memoryview runtime of
  Cython computes it: a zero step raises \<open>ValueError\<close>; otherwise the slice starts at
  \<open>0\<close> (at the last index for a negative step) and has \<open>ceil((stop - start)/step)\<close>
  entries.
\<close>

definition slice_axis :: "int \<Rightarrow> nat \<Rightarrow> failure + (int \<times> nat)" where
  "slice_axis step extent =
     (if step = 0 then Inl ZeroStep
      else let start = (if step < 0 then int extent - 1 else 0);
               stop = (if step < 0 then - 1 else int extent);
               q = c_div (stop - start) step;
               new_shape = (if (stop - start) - step * q \<noteq> 0 then q + 1 else q)
           in Inr (start, nat (if new_shape < 0 then 0 else new_shape)))"

text \<open>
  \<open>x[:, :] = x_aligned.T[::step, :]\<close>: the source view has \<open>rows\<close> rows and as many columns
  as \<open>x_aligned\<close> has rows, and its entry \<open>(i, j)\<close> is \<open>x_aligned[j, start + i*step]\<close>. The
  copy of the runtime raises \<open>ValueError\<close> when an extent of the source differs from the
  extent of the destination and is not \<open>1\<close>; an extent \<open>1\<close> is broadcast.
\<close>

definition copy_strided_transpose ::
  "'a memview2 \<Rightarrow> int \<Rightarrow> int \<Rightarrow> nat \<Rightarrow> 'a option memview2 \<Rightarrow> failure + 'a option memview2" where
  "copy_strided_transpose src start step rows x =
     (let cols = shape0 src; N = shape0 x; K = shape1 x
      in if (rows \<noteq> N \<and> rows \<noteq> 1) \<or> (cols \<noteq> K \<and> cols \<noteq> 1) then Inl ShapeMismatch
         else for_loop (xrange 0 (int N))
                (\<lambda>i. for_loop (xrange 0 (int K))
                   (\<lambda>j x. and_then (rd2 src (if cols = K then j else 0)
                                      (start + (if rows = N then i else 0) * step))
                            (\<lambda>v. wr2 x i j (Some v)))) x)"

definition codefreq ::
  "('a memview2 \<Rightarrow> 'a list) \<Rightarrow> 'a::times list \<Rightarrow> 'a scratch \<Rightarrow> int \<Rightarrow> int \<Rightarrow> int \<Rightarrow> int
     \<Rightarrow> 'a list \<Rightarrow> failure + ('a option memview2 \<times> 'a scratch)" where
  "codefreq fft s_conj_over_sqrtN bufs step N M R y =
     and_then (PyArray_EMPTY N (R * M)) (\<lambda>x.
     and_then (for_loop (prange (R * M)) (demodulate_row s_conj_over_sqrtN R M y)
                 (demodpad bufs)) (\<lambda>dpad.
       let xal = (x_aligned bufs)\<lparr>buf := fft dpad\<rparr>
       in and_then (slice_axis step (shape1 xal)) (\<lambda>(start, rows).
          and_then (copy_strided_transpose xal start step rows x) (\<lambda>x'.
            Inr (x', \<lparr>demodpad = dpad, x_aligned = xal\<rparr>)))))"

text \<open>
  The factory divides the conjugated waveform by \<open>sqrt(N)\<close> once; the callable it
  returns is \<open>codefreq\<close> on the buffers given at construction, whose state the model
  passes in at each call. For \<open>N \<le> 0\<close> the quotient is not a number in floating point;
  then the output has no entry or the call fails, and no statement below rests on the
  value the division has in HOL.
\<close>

definition CodeFreqCython ::
  "(complex memview2 \<Rightarrow> complex list) \<Rightarrow> complex list \<Rightarrow> int \<Rightarrow> int \<Rightarrow> int \<Rightarrow> int
     \<Rightarrow> complex scratch \<Rightarrow> complex list \<Rightarrow> failure + (complex option memview2 \<times> complex scratch)" where
  "CodeFreqCython fft s step N M R =
     (let s_conj_over_sqrtN = map (\<lambda>z. cnj z / complex_of_real (sqrt (real_of_int N))) s
      in (\<lambda>bufs y. codefreq fft s_conj_over_sqrtN bufs step N M R y))"

section \<open>What the loops compute\<close>

text \<open>
  The definitions of this section are not part of the program. They name, for the
  proofs, the values that the loops of \<open>direct_sum\<close> and \<open>codefreq\<close> compute, the cells
  they write, and the condition under which one of their unchecked accesses leaves its
  buffer; \<open>finish\<close> is the part of \<open>codefreq\<close> after the demodulation loop. The last
  definitions state the conditions on the buffers and on the transform executor under
  which \<open>codefreq\<close> is used: \<open>zero_outside_windows\<close> is the zero padding of \<open>demodpad\<close>;
  \<open>demodulated\<close> is \<open>demodpad\<close> as the demodulation loop of the callable returned by
  \<open>CodeFreqCython\<close> leaves it, and \<open>computes_scaled_dft\<close> says that the executor, applied
  to that buffer, leaves in \<open>x_aligned[p, n*step]\<close> the product of row \<open>n\<close> of \<open>dftmat\<close> with
  the first \<open>M\<close> entries of row \<open>p\<close> of \<open>demodpad\<close>, times \<open>sqrt(N)\<close>; \<open>zero_preserving\<close>
  says that it maps a zero buffer to a zero buffer.
\<close>

definition reads_ok :: "'a list \<Rightarrow> 'a memview2 \<Rightarrow> int \<Rightarrow> 'a list \<Rightarrow> int \<Rightarrow> int \<Rightarrow> int \<Rightarrow> bool" where
  "reads_ok s_conj dftmat R y p n m \<longleftrightarrow>
     (0 \<le> R * m - p \<and> R * m - p < int (length s_conj)) \<and>
     (0 \<le> n * int (shape1 dftmat) + m \<and> n * int (shape1 dftmat) + m < int (length (buf dftmat))) \<and>
     (0 \<le> m \<and> m < int (length y))"

definition summand :: "'a::times list \<Rightarrow> 'a memview2 \<Rightarrow> int \<Rightarrow> 'a list \<Rightarrow> int \<Rightarrow> int \<Rightarrow> int \<Rightarrow> 'a" where
  "summand s_conj dftmat R y p n m =
     s_conj ! nat (R * m - p) * buf dftmat ! nat (n * int (shape1 dftmat) + m) * y ! nat m"

definition entry_value :: "'a::{zero,plus,times} list \<Rightarrow> 'a memview2 \<Rightarrow> int \<Rightarrow> 'a list \<Rightarrow> int \<Rightarrow> int \<Rightarrow> 'a" where
  "entry_value s_conj dftmat R y p n =
     fold (\<lambda>m xnp. xnp + summand s_conj dftmat R y p n m)
       (xrange (mstart R p) (mstop R (int (length s_conj)) (int (shape1 dftmat)) p)) 0"

definition entry_bad :: "'a list \<Rightarrow> 'a memview2 \<Rightarrow> int \<Rightarrow> 'a list \<Rightarrow> int \<Rightarrow> int \<Rightarrow> bool" where
  "entry_bad s_conj dftmat R y p n \<longleftrightarrow>
     (\<exists>m \<in> set (xrange (mstart R p) (mstop R (int (length s_conj)) (int (shape1 dftmat)) p)).
        \<not> reads_ok s_conj dftmat R y p n m)"

definition column_bad :: "'a list \<Rightarrow> 'a memview2 \<Rightarrow> int \<Rightarrow> 'a list \<Rightarrow> int \<Rightarrow> bool" where
  "column_bad s_conj dftmat R y p \<longleftrightarrow>
     (\<exists>n \<in> set (xrange 0 (int (shape0 dftmat))). entry_bad s_conj dftmat R y p n)"

definition put :: "nat \<Rightarrow> int \<Rightarrow> int \<Rightarrow> 'a \<Rightarrow> 'a memview2 \<Rightarrow> 'a memview2" where
  "put K n p v x = x\<lparr>buf := (buf x)[nat (n * int K + p) := v]\<rparr>"

definition column_update ::
  "'a::{zero,plus,times} list \<Rightarrow> 'a memview2 \<Rightarrow> int \<Rightarrow> 'a list \<Rightarrow> nat \<Rightarrow> int
     \<Rightarrow> 'a option memview2 \<Rightarrow> 'a option memview2" where
  "column_update s_conj dftmat R y K p =
     fold (\<lambda>n. put K n p (Some (entry_value s_conj dftmat R y p n))) (xrange 0 (int (shape0 dftmat)))"

definition direct_sum_array ::
  "'a::{zero,plus,times} list \<Rightarrow> 'a memview2 \<Rightarrow> int \<Rightarrow> 'a list \<Rightarrow> 'a option memview2" where
  "direct_sum_array s_conj dftmat R y =
     (let N = shape0 dftmat; K = nat (R * int (shape1 dftmat))
      in \<lparr>shape0 = N, shape1 = K,
          buf = map (\<lambda>i. Some (entry_value s_conj dftmat R y (int (i mod K)) (int (i div K))))
                  [0..<N * K]\<rparr>)"

definition cells_of :: "(int \<Rightarrow> int list) \<Rightarrow> int list \<Rightarrow> (int \<times> int) list" where
  "cells_of inner outer = concat (map (\<lambda>i. map (Pair i) (inner i)) outer)"

definition cell_index :: "nat \<Rightarrow> int \<times> int \<Rightarrow> nat" where
  "cell_index W = (\<lambda>(i, j). nat (i * int W + j))"

definition write_cells :: "nat \<Rightarrow> (int \<times> int \<Rightarrow> 'a) \<Rightarrow> (int \<times> int) list \<Rightarrow> 'a list \<Rightarrow> 'a list" where
  "write_cells W val cs = fold (\<lambda>c l. l[cell_index W c := val c]) cs"

definition window_cells :: "int \<Rightarrow> int \<Rightarrow> int \<Rightarrow> int list \<Rightarrow> (int \<times> int) list" where
  "window_cells R L M = cells_of (\<lambda>p. xrange (mstart R p) (mstop R L M p))"

definition demod_ok :: "'a list \<Rightarrow> int \<Rightarrow> 'a list \<Rightarrow> nat \<Rightarrow> nat \<Rightarrow> int \<times> int \<Rightarrow> bool" where
  "demod_ok s R y W len = (\<lambda>(p, m).
     (0 \<le> R * m - p \<and> R * m - p < int (length s)) \<and> (0 \<le> m \<and> m < int (length y)) \<and>
     (0 \<le> p * int W + m \<and> p * int W + m < int len))"

definition demod_value :: "'a::times list \<Rightarrow> int \<Rightarrow> 'a list \<Rightarrow> int \<times> int \<Rightarrow> 'a" where
  "demod_value s R y = (\<lambda>(p, m). s ! nat (R * m - p) * y ! nat m)"

definition copy_ok :: "'a memview2 \<Rightarrow> int \<Rightarrow> int \<Rightarrow> nat \<Rightarrow> nat \<Rightarrow> nat \<Rightarrow> int \<times> int \<Rightarrow> bool" where
  "copy_ok src start step rows N K = (\<lambda>(i, j).
     (let k = (if shape0 src = K then j else 0) * int (shape1 src)
                + (start + (if rows = N then i else 0) * step)
      in 0 \<le> k \<and> k < int (length (buf src))) \<and>
     (0 \<le> i * int K + j \<and> i * int K + j < int (N * K)))"

definition copy_value :: "'a memview2 \<Rightarrow> int \<Rightarrow> int \<Rightarrow> nat \<Rightarrow> nat \<Rightarrow> nat \<Rightarrow> int \<times> int \<Rightarrow> 'a option" where
  "copy_value src start step rows N K = (\<lambda>(i, j).
     Some (buf src ! nat ((if shape0 src = K then j else 0) * int (shape1 src)
                            + (start + (if rows = N then i else 0) * step))))"

definition finish ::
  "('a memview2 \<Rightarrow> 'a list) \<Rightarrow> 'a memview2 \<Rightarrow> int \<Rightarrow> 'a option memview2 \<Rightarrow> 'a memview2
     \<Rightarrow> failure + ('a option memview2 \<times> 'a scratch)" where
  "finish fft xal0 step x dpad =
     (let xal = xal0\<lparr>buf := fft dpad\<rparr>
      in and_then (slice_axis step (shape1 xal)) (\<lambda>(start, rows).
         and_then (copy_strided_transpose xal start step rows x) (\<lambda>x'.
           Inr (x', \<lparr>demodpad = dpad, x_aligned = xal\<rparr>))))"

definition window_cell :: "int \<Rightarrow> int \<Rightarrow> int \<Rightarrow> nat \<Rightarrow> nat \<Rightarrow> bool" where
  "window_cell R L M W k \<longleftrightarrow> k \<in> cell_index W ` set (window_cells R L M (prange (R * M)))"

definition zero_outside_windows :: "int \<Rightarrow> int \<Rightarrow> int \<Rightarrow> 'a::zero memview2 \<Rightarrow> bool" where
  "zero_outside_windows R L M D \<longleftrightarrow>
     (\<forall>k < length (buf D). \<not> window_cell R L M (shape1 D) k \<longrightarrow> buf D ! k = 0)"

definition demodulated ::
  "complex list \<Rightarrow> int \<Rightarrow> int \<Rightarrow> int \<Rightarrow> complex list \<Rightarrow> complex scratch
     \<Rightarrow> failure + complex memview2" where
  "demodulated s N M R y bufs =
     for_loop (prange (R * M))
       (demodulate_row (map (\<lambda>z. cnj z / complex_of_real (sqrt (real_of_int N))) s) R M y)
       (demodpad bufs)"

definition computes_scaled_dft ::
  "(complex memview2 \<Rightarrow> complex list) \<Rightarrow> complex memview2 \<Rightarrow> int \<Rightarrow> complex list \<Rightarrow> int
     \<Rightarrow> complex list \<Rightarrow> complex scratch \<Rightarrow> bool" where
  "computes_scaled_dft fft dftmat step s R y bufs \<longleftrightarrow>
     (\<forall>D. demodulated s (int (shape0 dftmat)) (int (shape1 dftmat)) R y bufs = Inr D \<longrightarrow>
        length (fft D) = length (buf (x_aligned bufs)) \<and>
        (\<forall>n < shape0 dftmat. \<forall>p < shape0 (x_aligned bufs).
           fft D ! (p * shape1 (x_aligned bufs) + n * nat step)
             = complex_of_real (sqrt (real (shape0 dftmat)))
               * (\<Sum>m < shape1 dftmat. buf dftmat ! (n * shape1 dftmat + m) * buf D ! (p * shape1 D + m))))"



text \<open>
  The linear combination of two results of a call, entry by entry; a failure of either
  call is the failure of the combination.
\<close>

definition linear_combination ::
  "'a::{plus,times} \<Rightarrow> failure + 'a option memview2 \<Rightarrow> 'a \<Rightarrow> failure + 'a option memview2
     \<Rightarrow> failure + 'a option memview2" where
  "linear_combination a r1 b r2 =
     and_then r1 (\<lambda>x1. and_then r2 (\<lambda>x2.
       Inr (x1\<lparr>buf := map2 (\<lambda>u v. case (u, v) of (Some u', Some v') \<Rightarrow> Some (a * u' + b * v') | _ \<Rightarrow> None)
                         (buf x1) (buf x2)\<rparr>)))"

section \<open>Integer division and ranges\<close>

lemma le_div_iff_int: 
  fixes a R m :: int assumes R: "0 < R" shows "m \<le> a div R \<longleftrightarrow> R * m \<le> a"
proof
  assume "m \<le> a div R"
  then have "R * m \<le> R * (a div R)" using R by (simp add: mult_left_mono)
  also have "\<dots> \<le> a" using R by (metis mult_div_mod_eq pos_mod_sign le_add_same_cancel1)
  finally show "R * m \<le> a" .
next
  assume h: "R * m \<le> a"
  have "(R * m) div R \<le> a div R" using h R by (rule zdiv_mono1)
  then show "m \<le> a div R" using R by simp
qed

lemma div_less_iff_int: 
  fixes a R m :: int assumes R: "0 < R" shows "a div R < m \<longleftrightarrow> a < R * m"
  using le_div_iff_int [OF R, of m a] by linarith

lemma c_div_nonneg: "0 \<le> a \<Longrightarrow> 0 < b \<Longrightarrow> c_div a b = a div b"
  by (cases "a = 0") (simp_all add: c_div_def)

lemma mstart_le_iff: 
  assumes "0 \<le> p" "1 \<le> R" shows "mstart R p \<le> m \<longleftrightarrow> p \<le> R * m"
proof -
  have R: "0 < R" using assms by simp
  have "mstart R p = (p - 1 + R) div R" using assms by (simp add: mstart_def c_div_nonneg)
  moreover have "(p - 1 + R) div R < m + 1 \<longleftrightarrow> p - 1 + R < R * (m + 1)"
    by (rule div_less_iff_int [OF R])
  moreover have "R * (m + 1) = R * m + R" by (simp add: algebra_simps)
  ultimately show ?thesis by linarith
qed

lemma mstop_less_iff:
  assumes "1 \<le> R" "1 \<le> p + L" shows "m < mstop R L M p \<longleftrightarrow> m < M \<and> R * m - p \<le> L - 1"
proof -
  have R: "0 < R" using assms by simp
  have "mstop R L M p = min M ((p + L - 1) div R + 1)" using assms by (simp add: mstop_def c_div_nonneg)
  moreover have "m \<le> (p + L - 1) div R  \<longleftrightarrow> R * m \<le> p + L - 1"
    by (rule le_div_iff_int [OF R])
  ultimately show ?thesis by auto
qed

lemma mstart_ceiling: 
  assumes "0 \<le> p" "1 \<le> R" shows "mstart R p = \<lceil>real_of_int p / real_of_int R\<rceil>"
proof -
  have R: "0 < R" using assms by simp
  have "\<lceil>real_of_int p / real_of_int R\<rceil> \<le> m \<longleftrightarrow> mstart R p \<le> m" for m
  proof -
    have "\<lceil>real_of_int p / real_of_int R\<rceil> \<le> m \<longleftrightarrow> real_of_int p / real_of_int R \<le> real_of_int m"
      by (rule ceiling_le_iff)
    also have "\<dots> \<longleftrightarrow> real_of_int p \<le> real_of_int m * real_of_int R"
      using R by (simp add: pos_divide_le_eq)
    also have "\<dots> \<longleftrightarrow> p \<le> R * m"
      by (metis mult.commute of_int_le_iff of_int_mult)
    also have "\<dots> \<longleftrightarrow> mstart R p \<le> m" using mstart_le_iff [OF assms] by simp
    finally show ?thesis .
  qed
  then show ?thesis by (metis order_refl antisym)
qed

lemma mstop_floor:
  assumes "1 \<le> R" "1 \<le> p + L" 
  shows "mstop R L M p = min M (\<lfloor>real_of_int (p + L - 1) / real_of_int R\<rfloor> + 1)"
  using assms by (simp add: mstop_def c_div_nonneg floor_divide_of_int_eq del: of_int_diff of_int_add)

lemma xrange_unfold: "xrange a b = (if a < b then a # xrange (a + 1) b else [])"
proof (cases "a < b")
  case True
  then have n: "nat (b - a) = Suc (nat (b - (a + 1)))" by simp
  show ?thesis using True
    by (simp add: xrange_def n upt_conv_Cons map_Suc_upt [symmetric] del: upt_Suc)
next
  case False
  then show ?thesis by (simp add: xrange_def)
qed

lemma set_xrange: "set (xrange a b) = {a..<b}"
proof -
  have "set (xrange a b) = (\<lambda>k. a + int k) ` {0..<nat (b - a)}"
    by (simp add: xrange_def)
  also have "\<dots> = {a..<b}"
  proof (rule set_eqI)
    fix m show "m \<in> (\<lambda>k. a + int k) ` {0..<nat (b - a)} \<longleftrightarrow> m \<in> {a..<b}"
    proof
      assume "m \<in> (\<lambda>k. a + int k) ` {0..<nat (b - a)}"
      then show "m \<in> {a..<b}" by auto
    next
      assume m: "m \<in> {a..<b}"
      then have "m = a + int (nat (m - a))" "nat (m - a) \<in> {0..<nat (b - a)}" by auto
      then show "m \<in> (\<lambda>k. a + int k) ` {0..<nat (b - a)}" by (rule image_eqI)
    qed
  qed
  finally show ?thesis .
qed

lemma distinct_xrange: "distinct (xrange a b)"
  by (simp add: xrange_def distinct_map inj_on_def)

section \<open>The loops of DirectSum\<close>

lemma for_loop_decide:
  assumes "Inv s"
    and "\<And>i s. i \<in> set xs \<Longrightarrow> Inv s \<Longrightarrow> body i s = (if bad i then Inl e else Inr (upd i s))"
    and "\<And>i s. i \<in> set xs \<Longrightarrow> Inv s \<Longrightarrow> \<not> bad i \<Longrightarrow> Inv (upd i s)"
  shows "for_loop xs body s = (if \<exists>i\<in>set xs. bad i then Inl e else Inr (fold upd xs s))"
  using assms
proof (induction xs arbitrary: s)
  case Nil
  then show ?case by simp
next
  case (Cons i xs)
  have b: "body i s = (if bad i then Inl e else Inr (upd i s))"
    using Cons.prems(1,2) by simp
  show ?case
  proof (cases "bad i")
    case True
    then show ?thesis using b by (simp add: and_then_def)
  next
    case False
    have inv: "Inv (upd i s)" using Cons.prems(1,3) False by simp
    have "for_loop xs body (upd i s) = (if \<exists>i\<in>set xs. bad i then Inl e else Inr (fold upd xs (upd i s)))"
      by (rule Cons.IH [OF inv]) (use Cons.prems in auto)
    then show ?thesis using b False by (simp add: and_then_def)
  qed
qed

lemma accumulate_decide:
  "accumulate s_conj dftmat R y p n (mstart R p) (mstop R (int (length s_conj)) (int (shape1 dftmat)) p) =
     (if entry_bad s_conj dftmat R y p n then Inl OutOfBounds
      else Inr (entry_value s_conj dftmat R y p n))"
  unfolding accumulate_def entry_bad_def entry_value_def
  by (rule for_loop_decide [where Inv = "\<lambda>_. True" and bad = "\<lambda>m. \<not> reads_ok s_conj dftmat R y p n m"])
     (auto simp: reads_ok_def summand_def and_then_def rd1_def rd2_def)

lemma flat_index_bound:
  fixes n N p K :: int
  assumes "0 \<le> n" "n < N" "0 \<le> p" "p < K"
  shows "0 \<le> n * K + p" "n * K + p < N * K"
proof -
  show "0 \<le> n * K + p" using assms by simp
  have "(n + 1) * K \<le> N * K" using assms by (intro mult_right_mono) auto
  then show "n * K + p < N * K" using assms by (simp add: algebra_simps)
qed

lemma put_simps [simp]:
  "shape0 (put K n p v x) = shape0 x"
  "shape1 (put K n p v x) = shape1 x"
  "length (buf (put K n p v x)) = length (buf x)"
  by (simp_all add: put_def)

lemma wr2_put:
  assumes "shape1 x = K" "0 \<le> n * int K + p" "n * int K + p < int (length (buf x))"
  shows "wr2 x n p v = Inr (put K n p v x)"
  using assms by (simp add: wr2_def put_def Let_def)

lemma direct_sum_column_decide:
  assumes x: "shape1 x = K" "length (buf x) = shape0 dftmat * K" and p: "0 \<le> p" "p < int K"
  shows "direct_sum_column s_conj dftmat R y p x =
     (if column_bad s_conj dftmat R y p then Inl OutOfBounds
      else Inr (column_update s_conj dftmat R y K p x))"
proof -
  let ?Inv = "\<lambda>x :: 'a option memview2. shape1 x = K \<and> length (buf x) = shape0 dftmat * K"
  have "for_loop (xrange 0 (int (shape0 dftmat)))
          (\<lambda>n x. and_then (accumulate s_conj dftmat R y p n (mstart R p)
                     (mstop R (int (length s_conj)) (int (shape1 dftmat)) p))
                   (\<lambda>xnp. wr2 x n p (Some xnp))) x =
        (if \<exists>n \<in> set (xrange 0 (int (shape0 dftmat))). entry_bad s_conj dftmat R y p n
         then Inl OutOfBounds
         else Inr (fold (\<lambda>n. put K n p (Some (entry_value s_conj dftmat R y p n)))
                 (xrange 0 (int (shape0 dftmat))) x))"
  proof (rule for_loop_decide [where Inv = ?Inv])
    show "?Inv x" using x by simp
  next
    fix n and x' :: "'a option memview2"
    assume n: "n \<in> set (xrange 0 (int (shape0 dftmat)))" and inv: "?Inv x'"
    have nb: "0 \<le> n" "n < int (shape0 dftmat)" using n by (simp_all add: set_xrange)
    have "0 \<le> n * int K + p" "n * int K + p < int (shape0 dftmat) * int K"
      using flat_index_bound [OF nb p] by simp_all
    then have "wr2 x' n p v = Inr (put K n p v x')" for v
      using inv by (intro wr2_put) (simp_all flip: of_nat_mult)
    then show "and_then (accumulate s_conj dftmat R y p n (mstart R p)
                     (mstop R (int (length s_conj)) (int (shape1 dftmat)) p))
                   (\<lambda>xnp. wr2 x' n p (Some xnp)) =
       (if entry_bad s_conj dftmat R y p n then Inl OutOfBounds
        else Inr (put K n p (Some (entry_value s_conj dftmat R y p n)) x'))"
      by (simp add: accumulate_decide and_then_def)
  next
    fix n and x' :: "'a option memview2"
    assume "?Inv x'"
    then show "?Inv (put K n p (Some (entry_value s_conj dftmat R y p n)) x')" by simp
  qed
  then show ?thesis
    by (simp add: direct_sum_column_def column_bad_def column_update_def Let_def)
qed

lemma column_update_shape [simp]:
  "shape0 (column_update s_conj dftmat R y K p x) = shape0 x"
  "shape1 (column_update s_conj dftmat R y K p x) = shape1 x"
  "length (buf (column_update s_conj dftmat R y K p x)) = length (buf x)"
proof -
  have "shape0 (fold (\<lambda>n. put K n p (f n)) ns x) = shape0 x
      \<and> shape1 (fold (\<lambda>n. put K n p (f n)) ns x) = shape1 x
      \<and> length (buf (fold (\<lambda>n. put K n p (f n)) ns x)) = length (buf x)" for f ns
    by (induction ns arbitrary: x) simp_all
  then show "shape0 (column_update s_conj dftmat R y K p x) = shape0 x"
    "shape1 (column_update s_conj dftmat R y K p x) = shape1 x"
    "length (buf (column_update s_conj dftmat R y K p x)) = length (buf x)"
    by (simp_all add: column_update_def)
qed

lemma direct_sum_in_order_decide:
  assumes ps: "set ps \<subseteq> {0..<R * int (shape1 dftmat)}"
  shows "direct_sum_in_order ps s_conj dftmat R y =
     (if R * int (shape1 dftmat) < 0 then Inl NegativeDimensions
      else if \<exists>p\<in>set ps. column_bad s_conj dftmat R y p then Inl OutOfBounds
      else Inr (fold (column_update s_conj dftmat R y (nat (R * int (shape1 dftmat)))) ps
             \<lparr>shape0 = shape0 dftmat, shape1 = nat (R * int (shape1 dftmat)),
              buf = replicate (shape0 dftmat * nat (R * int (shape1 dftmat))) None\<rparr>))"
proof (cases "R * int (shape1 dftmat) < 0")
  case True
  then show ?thesis by (simp add: direct_sum_in_order_def PyArray_EMPTY_def and_then_def Let_def)
next
  case False
  let ?K = "nat (R * int (shape1 dftmat))"
  let ?init = "\<lparr>shape0 = shape0 dftmat, shape1 = ?K,
              buf = replicate (shape0 dftmat * ?K) (None :: 'a option)\<rparr>"
  let ?Inv = "\<lambda>x :: 'a option memview2. shape1 x = ?K \<and> length (buf x) = shape0 dftmat * ?K"
  have "for_loop ps (direct_sum_column s_conj dftmat R y) ?init =
      (if \<exists>p\<in>set ps. column_bad s_conj dftmat R y p then Inl OutOfBounds
       else Inr (fold (column_update s_conj dftmat R y ?K) ps ?init))"
  proof (rule for_loop_decide [where Inv = ?Inv])
    show "?Inv ?init" by simp
  next
    fix p and x :: "'a option memview2"
    assume p: "p \<in> set ps" and inv: "?Inv x"
    have "0 \<le> p" "p < int ?K" using p ps False by auto
    then show "direct_sum_column s_conj dftmat R y p x =
       (if column_bad s_conj dftmat R y p then Inl OutOfBounds
        else Inr (column_update s_conj dftmat R y ?K p x))"
      using inv by (intro direct_sum_column_decide) simp_all
  next
    fix p and x :: "'a option memview2"
    assume "?Inv x"
    then show "?Inv (column_update s_conj dftmat R y ?K p x)" by simp
  qed
  then show ?thesis using False
    by (simp add: direct_sum_in_order_def PyArray_EMPTY_def and_then_def Let_def)
qed

lemma fold_update_length [simp]:
  "length (fold (\<lambda>k l. l[idx k := f k]) ks l) = length l"
  by (induction ks arbitrary: l) simp_all

lemma fold_update_other:
  "j \<notin> idx ` set ks \<Longrightarrow> fold (\<lambda>k l. l[idx k := f k]) ks l ! j = l ! j"
  by (induction ks arbitrary: l) auto

lemma fold_update_hit:
  "k \<in> set ks \<Longrightarrow> inj_on idx (set ks) \<Longrightarrow> idx k < length l \<Longrightarrow>
     fold (\<lambda>k l. l[idx k := f k]) ks l ! idx k = f k"
proof (induction ks arbitrary: l)
  case Nil
  then show ?case by simp
next
  case (Cons a ks)
  show ?case
  proof (cases "k \<in> set ks")
    case True
    have "inj_on idx (set ks)" using Cons.prems(2) by (simp add: inj_on_def)
    then show ?thesis using Cons.IH [OF True, of "l[idx a := f a]"] Cons.prems(3) by simp
  next
    case False
    then have ka: "k = a" using Cons.prems(1) by simp
    have "idx a \<notin> idx ` set ks"
      using Cons.prems(2) False ka by (auto simp: inj_on_def)
    then have "fold (\<lambda>k l. l[idx k := f k]) ks (l[idx a := f a]) ! idx a = (l[idx a := f a]) ! idx a"
      by (rule fold_update_other)
    then show ?thesis using ka Cons.prems(3) by simp
  qed
qed

lemma buf_fold_put:
  "buf (fold (\<lambda>n. put K n p (f n)) ns x) = fold (\<lambda>n l. l[nat (n * int K + p) := f n]) ns (buf x)"
  by (induction ns arbitrary: x) (simp_all add: put_def)

lemma column_update_nth:
  assumes p: "0 \<le> p" "p < int K" and len: "length (buf x) = shape0 dftmat * K"
    and i: "i < shape0 dftmat * K"
  shows "buf (column_update s_conj dftmat R y K p x) ! i =
     (if int (i mod K) = p then Some (entry_value s_conj dftmat R y p (int (i div K)))
      else buf x ! i)"
proof -
  let ?idx = "\<lambda>n. nat (n * int K + p)"
  let ?f = "\<lambda>n. Some (entry_value s_conj dftmat R y p n)"
  let ?ns = "xrange 0 (int (shape0 dftmat))"
  have K: "0 < K" using p by simp
  have b: "buf (column_update s_conj dftmat R y K p x) = fold (\<lambda>n l. l[?idx n := ?f n]) ?ns (buf x)"
    by (simp add: column_update_def buf_fold_put)
  show ?thesis
  proof (cases "int (i mod K) = p")
    case True
    let ?n = "int (i div K)"
    have "i div K < shape0 dftmat" using i K by (simp add: less_mult_imp_div_less)
    then have mem: "?n \<in> set ?ns" by (simp add: set_xrange)
    have "int i = ?n * int K + int (i mod K)"
      by (metis div_mult_mod_eq of_nat_add of_nat_mult)
    then have idx: "?idx ?n = i" using True by simp
    have inj: "inj_on ?idx (set ?ns)"
    proof (rule inj_onI)
      fix a b assume a: "a \<in> set ?ns" and b: "b \<in> set ?ns" and e: "?idx a = ?idx b"
      have "0 \<le> a * int K + p" "0 \<le> b * int K + p" using a b p by (simp_all add: set_xrange)
      then have "a * int K + p = b * int K + p" using e by (metis nat_0_le)
      then show "a = b" using K by simp
    qed
    have "fold (\<lambda>n l. l[?idx n := ?f n]) ?ns (buf x) ! ?idx ?n = ?f ?n"
      using mem inj by (rule fold_update_hit) (simp add: idx len i)
    then show ?thesis using True b idx by simp
  next
    case False
    have "i \<notin> ?idx ` set ?ns"
    proof
      assume "i \<in> ?idx ` set ?ns"
      then obtain n where n: "n \<in> set ?ns" and e: "i = ?idx n" by auto
      have n0: "0 \<le> n" using n by (simp add: set_xrange)
      then have "int i = n * int K + p" using e p by simp
      then have "int i mod int K = p" using p by simp
      then show False using False by (simp add: zmod_int)
    qed
    then have "fold (\<lambda>n l. l[?idx n := ?f n]) ?ns (buf x) ! i = buf x ! i"
      by (rule fold_update_other)
    then show ?thesis using False b by simp
  qed
qed

lemma fold_columns_shape:
  "shape0 (fold (column_update s_conj dftmat R y K) ps x) = shape0 x
   \<and> shape1 (fold (column_update s_conj dftmat R y K) ps x) = shape1 x
   \<and> length (buf (fold (column_update s_conj dftmat R y K) ps x)) = length (buf x)"
  by (induction ps arbitrary: x) simp_all

lemma fold_columns_nth:
  assumes "set ps \<subseteq> {0..<int K}" "length (buf x) = shape0 dftmat * K" "i < shape0 dftmat * K"
  shows "buf (fold (column_update s_conj dftmat R y K) ps x) ! i =
     (if int (i mod K) \<in> set ps
      then Some (entry_value s_conj dftmat R y (int (i mod K)) (int (i div K)))
      else buf x ! i)"
  using assms
proof (induction ps arbitrary: x)
  case Nil
  then show ?case by simp
next
  case (Cons p ps)
  have p: "0 \<le> p" "p < int K" using Cons.prems(1) by simp_all
  have len: "length (buf (column_update s_conj dftmat R y K p x)) = shape0 dftmat * K"
    using Cons.prems(2) by simp
  have ps: "set ps \<subseteq> {0..<int K}" using Cons.prems(1) by simp
  show ?case
    using Cons.IH [OF ps len Cons.prems(3)] column_update_nth [OF p Cons.prems(2) Cons.prems(3)]
    by auto
qed

lemma fold_columns_all:
  assumes "set ps = {0..<R * int (shape1 dftmat)}"
  shows "fold (column_update s_conj dftmat R y (nat (R * int (shape1 dftmat)))) ps
           \<lparr>shape0 = shape0 dftmat, shape1 = nat (R * int (shape1 dftmat)),
            buf = replicate (shape0 dftmat * nat (R * int (shape1 dftmat))) None\<rparr>
         = direct_sum_array s_conj dftmat R y"
proof -
  let ?K = "nat (R * int (shape1 dftmat))"
  let ?init = "\<lparr>shape0 = shape0 dftmat, shape1 = ?K,
              buf = replicate (shape0 dftmat * ?K) (None :: 'a option)\<rparr>"
  let ?x = "fold (column_update s_conj dftmat R y ?K) ps ?init"
  have sub: "set ps \<subseteq> {0..<int ?K}" using assms by auto
  have sh: "shape0 ?x = shape0 dftmat" "shape1 ?x = ?K" "length (buf ?x) = shape0 dftmat * ?K"
    using fold_columns_shape [where x = ?init and ps = ps and K = ?K] by simp_all
  have "buf ?x = buf (direct_sum_array s_conj dftmat R y)"
  proof (rule nth_equalityI)
    show "length (buf ?x) = length (buf (direct_sum_array s_conj dftmat R y))"
      using sh by (simp add: direct_sum_array_def Let_def)
  next
    fix i assume "i < length (buf ?x)"
    then have i: "i < shape0 dftmat * ?K" using sh by simp
    then have K: "0 < ?K" by (cases "?K = 0") simp_all
    then have "int (i mod ?K) \<in> set ps" using assms by (simp add: zmod_int)
    then have "buf ?x ! i = Some (entry_value s_conj dftmat R y (int (i mod ?K)) (int (i div ?K)))"
      using fold_columns_nth [OF sub _ i, where x = ?init] by simp
    then show "buf ?x ! i = buf (direct_sum_array s_conj dftmat R y) ! i"
      using i by (simp add: direct_sum_array_def Let_def)
  qed
  moreover have "shape0 ?x = shape0 (direct_sum_array s_conj dftmat R y)"
    "shape1 ?x = shape1 (direct_sum_array s_conj dftmat R y)"
    using sh by (simp_all add: direct_sum_array_def Let_def)
  moreover have "memview2.more ?x = memview2.more (direct_sum_array s_conj dftmat R y)"
    by simp
  ultimately show ?thesis by (intro memview2.equality)
qed

lemma direct_sum_in_order_result:
  assumes "set ps = {0..<R * int (shape1 dftmat)}"
  shows "direct_sum_in_order ps s_conj dftmat R y =
     (if R * int (shape1 dftmat) < 0 then Inl NegativeDimensions
      else if \<exists>p\<in>{0..<R * int (shape1 dftmat)}. column_bad s_conj dftmat R y p then Inl OutOfBounds
      else Inr (direct_sum_array s_conj dftmat R y))"
proof -
  have sub: "set ps \<subseteq> {0..<R * int (shape1 dftmat)}" using assms by simp
  show ?thesis
    unfolding direct_sum_in_order_decide [OF sub] fold_columns_all [OF assms]
    using assms by simp
qed

lemma window_reads_ok:
  assumes c: "contiguous dftmat" and y: "shape1 dftmat \<le> length y" and R: "1 \<le> R"
    and s: "s_conj \<noteq> []"
    and p: "0 \<le> p" and n: "0 \<le> n" "n < int (shape0 dftmat)"
    and m: "m \<in> set (xrange (mstart R p) (mstop R (int (length s_conj)) (int (shape1 dftmat)) p))"
  shows "reads_ok s_conj dftmat R y p n m"
proof -
  have L: "1 \<le> p + int (length s_conj)" using s p by (cases s_conj) simp_all
  have lo: "p \<le> R * m" using m mstart_le_iff [OF p R, of m] by (simp add: set_xrange)
  have hi: "m < int (shape1 dftmat)" "R * m - p \<le> int (length s_conj) - 1"
    using m mstop_less_iff [OF R L, of m "int (shape1 dftmat)"] by (simp_all add: set_xrange)
  have "0 \<le> R * m" using lo p by simp
  then have m0: "0 \<le> m" using R by (simp add: zero_le_mult_iff)
  have "0 \<le> n * int (shape1 dftmat) + m" "n * int (shape1 dftmat) + m < int (shape0 dftmat) * int (shape1 dftmat)"
    using flat_index_bound [OF n m0 hi(1)] by simp_all
  moreover have "int (length (buf dftmat)) = int (shape0 dftmat) * int (shape1 dftmat)"
    using c by (simp add: contiguous_def)
  ultimately show ?thesis using lo hi m0 y by (simp add: reads_ok_def)
qed

lemma no_column_bad:
  assumes "contiguous dftmat" "shape1 dftmat \<le> length y" "1 \<le> R" "s_conj \<noteq> []" "0 \<le> p"
  shows "\<not> column_bad s_conj dftmat R y p"
  using window_reads_ok [OF assms] by (auto simp: column_bad_def entry_bad_def set_xrange)

lemma direct_sum_in_order_ok:
  assumes "contiguous dftmat" "shape1 dftmat \<le> length y" "1 \<le> R" "s_conj \<noteq> []"
    and ps: "set ps = {0..<R * int (shape1 dftmat)}"
  shows "direct_sum_in_order ps s_conj dftmat R y = Inr (direct_sum_array s_conj dftmat R y)"
proof -
  have "0 \<le> R * int (shape1 dftmat)" using assms(3) by simp
  moreover have "\<not> (\<exists>p\<in>{0..<R * int (shape1 dftmat)}. column_bad s_conj dftmat R y p)"
    using no_column_bad [OF assms(1-4)] by auto
  ultimately show ?thesis unfolding direct_sum_in_order_result [OF ps] by simp
qed

lemma direct_sum_ok:
  assumes "contiguous dftmat" "shape1 dftmat \<le> length y" "1 \<le> R" "s_conj \<noteq> []"
  shows "direct_sum s_conj dftmat R y = Inr (direct_sum_array s_conj dftmat R y)"
  unfolding direct_sum_def
  by (rule direct_sum_in_order_ok [OF assms]) (simp add: prange_def set_xrange)

lemma DirectSumCython_ok:
  assumes "contiguous dftmat" "shape1 dftmat \<le> length y" "1 \<le> R" "s \<noteq> []"
  shows "DirectSumCython s dftmat R y = Inr (direct_sum_array (map cnj s) dftmat R y)"
  using direct_sum_ok [OF assms(1-3), of "map cnj s"] assms(4)
  by (simp add: DirectSumCython_def)

lemma direct_sum_array_shape [simp]:
  "shape0 (direct_sum_array s_conj dftmat R y) = shape0 dftmat"
  "shape1 (direct_sum_array s_conj dftmat R y) = nat (R * int (shape1 dftmat))"
  "length (buf (direct_sum_array s_conj dftmat R y)) = shape0 dftmat * nat (R * int (shape1 dftmat))"
  by (simp_all add: direct_sum_array_def Let_def)

lemma direct_sum_array_nth:
  assumes "n < shape0 dftmat" "p < nat (R * int (shape1 dftmat))"
  shows "buf (direct_sum_array s_conj dftmat R y) ! (n * nat (R * int (shape1 dftmat)) + p)
           = Some (entry_value s_conj dftmat R y (int p) (int n))"
proof -
  let ?K = "nat (R * int (shape1 dftmat))"
  have "n * ?K + p < n * ?K + ?K" using assms by simp
  also have "\<dots> = Suc n * ?K" by simp
  also have "\<dots> \<le> shape0 dftmat * ?K" using assms(1) by (intro mult_le_mono1) simp
  finally have "n * ?K + p < shape0 dftmat * ?K" .
  then show ?thesis using assms by (simp add: direct_sum_array_def Let_def)
qed

lemma fold_plus_sum_list:
  fixes a :: "'a::monoid_add"
  shows "fold (\<lambda>m xnp. xnp + f m) xs a = a + sum_list (map f xs)"
  by (induction xs arbitrary: a) (simp_all add: add.assoc)

lemma entry_value_sum:
  fixes s_conj :: "'a::semiring_0 list"
  shows "entry_value s_conj dftmat R y p n =
     (\<Sum>m \<in> {mstart R p..<mstop R (int (length s_conj)) (int (shape1 dftmat)) p}.
        summand s_conj dftmat R y p n m)"
  by (simp add: entry_value_def fold_plus_sum_list sum_list_distinct_conv_sum_set
      distinct_xrange set_xrange)

lemma window_L1:
  assumes p: "0 \<le> p" and R: "1 \<le> R"
  shows "{mstart R p..<mstop R 1 M p} = (if R dvd p \<and> p div R < M then {p div R} else {})"
proof -
  have iff: "m \<in> {mstart R p..<mstop R 1 M p} \<longleftrightarrow> R * m = p \<and> m < M" for m
    using mstart_le_iff [OF p R, of m] mstop_less_iff [OF R, of p 1 m M] p by auto
  have eq: "R * m = p \<longleftrightarrow> R dvd p \<and> m = p div R" for m
    using R by auto
  have "m \<in> {mstart R p..<mstop R 1 M p} \<longleftrightarrow>
          m \<in> (if R dvd p \<and> p div R < M then {p div R} else {})" for m
    unfolding iff eq by auto
  then show ?thesis by (rule set_eqI)
qed

section \<open>The signal beyond the matrix width\<close>







section \<open>The loops of CodeFreq\<close>

lemma write_cells_length [simp]: "length (write_cells W val cs l) = length l"
  by (simp add: write_cells_def)

lemma write_cells_append:
  "write_cells W val (cs @ ds) l = write_cells W val ds (write_cells W val cs l)"
  by (simp add: write_cells_def)

lemma cells_of_Cons: "cells_of inner (i # outer) = map (Pair i) (inner i) @ cells_of inner outer"
  by (simp add: cells_of_def)

lemma set_cells_of: "set (cells_of inner outer) = {(i, j). i \<in> set outer \<and> j \<in> set (inner i)}"
  by (auto simp: cells_of_def)

lemma nested_loops_decide:
  assumes D: "shape1 D = W" "length (buf D) = len"
    and body: "\<And>i j D'. shape1 D' = W \<Longrightarrow> length (buf D') = len \<Longrightarrow>
       body i j D' = (if bad (i, j) then Inl e else Inr (put W i j (val (i, j)) D'))"
  shows "for_loop outer (\<lambda>i. for_loop (inner i) (body i)) D =
     (if \<exists>c \<in> set (cells_of inner outer). bad c then Inl e
      else Inr (D\<lparr>buf := write_cells W val (cells_of inner outer) (buf D)\<rparr>))"
  using D
proof (induction outer arbitrary: D)
  case Nil
  then show ?case by (simp add: cells_of_def write_cells_def)
next
  case (Cons i outer)
  let ?Inv = "\<lambda>D :: 'a memview2. shape1 D = W \<and> length (buf D) = len"
  have put_fold: "fold (\<lambda>j. put W i j (val (i, j))) js D
       = D\<lparr>buf := write_cells W val (map (Pair i) js) (buf D)\<rparr>" for js
    by (induction js arbitrary: D) (simp_all add: put_def write_cells_def cell_index_def)
  have row: "for_loop (inner i) (body i) D =
      (if \<exists>j \<in> set (inner i). bad (i, j) then Inl e
       else Inr (fold (\<lambda>j. put W i j (val (i, j))) (inner i) D))"
  proof (rule for_loop_decide [where Inv = ?Inv])
    show "?Inv D" using Cons.prems by simp
  next
    fix j and D' :: "'a memview2" assume "?Inv D'"
    then show "body i j D' = (if bad (i, j) then Inl e else Inr (put W i j (val (i, j)) D'))"
      using body by simp
  next
    fix j and D' :: "'a memview2" assume "?Inv D'"
    then show "?Inv (put W i j (val (i, j)) D')" by simp
  qed
  let ?D' = "D\<lparr>buf := write_cells W val (map (Pair i) (inner i)) (buf D)\<rparr>"
  have D': "shape1 ?D' = W" "length (buf ?D') = len" using Cons.prems by simp_all
  show ?case
  proof (cases "\<exists>j \<in> set (inner i). bad (i, j)")
    case True
    then show ?thesis using row by (auto simp: and_then_def cells_of_Cons)
  next
    case False
    then have "for_loop (i # outer) (\<lambda>i. for_loop (inner i) (body i)) D
        = for_loop outer (\<lambda>i. for_loop (inner i) (body i)) ?D'"
      using row by (simp add: and_then_def put_fold)
    then show ?thesis
      using Cons.IH [OF D'] False by (auto simp: cells_of_Cons write_cells_append)
  qed
qed

lemma write_cells_other:
  "k \<notin> cell_index W ` set cs \<Longrightarrow> write_cells W val cs l ! k = l ! k"
  unfolding write_cells_def by (rule fold_update_other)

lemma write_cells_hit:
  "c \<in> set cs \<Longrightarrow> inj_on (cell_index W) (set cs) \<Longrightarrow> cell_index W c < length l \<Longrightarrow>
     write_cells W val cs l ! cell_index W c = val c"
  unfolding write_cells_def by (rule fold_update_hit)


lemma write_cells_absorb:
  "length l = length l' \<Longrightarrow> (\<forall>k < length l. k \<notin> cell_index W ` set cs \<longrightarrow> l ! k = l' ! k) \<Longrightarrow>
     write_cells W val cs l = write_cells W val cs l'"
proof (induction cs arbitrary: l l')
  case Nil
  then show ?case by (simp add: write_cells_def nth_equalityI)
next
  case (Cons a cs)
  have "write_cells W val cs (l[cell_index W a := val a]) = write_cells W val cs (l'[cell_index W a := val a])"
  proof (rule Cons.IH)
    show "length (l[cell_index W a := val a]) = length (l'[cell_index W a := val a])"
      using Cons.prems(1) by simp
    show "\<forall>k < length (l[cell_index W a := val a]). k \<notin> cell_index W ` set cs \<longrightarrow>
        l[cell_index W a := val a] ! k = l'[cell_index W a := val a] ! k"
    proof (intro allI impI)
      fix k assume k: "k < length (l[cell_index W a := val a])" "k \<notin> cell_index W ` set cs"
      show "l[cell_index W a := val a] ! k = l'[cell_index W a := val a] ! k"
      proof (cases "k = cell_index W a")
        case True
        then show ?thesis using k(1) Cons.prems(1) by simp
      next
        case False
        then have "l ! k = l' ! k" using Cons.prems(2) k by simp
        then show ?thesis using False by simp
      qed
    qed
  qed
  then show ?case by (simp add: write_cells_def)
qed

lemma demodulate_decide:
  assumes D: "shape1 D = W" "length (buf D) = len"
  shows "for_loop ps (demodulate_row s R M y) D =
     (if \<exists>c \<in> set (window_cells R (int (length s)) M ps). \<not> demod_ok s R y W len c
      then Inl OutOfBounds
      else Inr (D\<lparr>buf := write_cells W (demod_value s R y) (window_cells R (int (length s)) M ps) (buf D)\<rparr>))"
proof -
  have "demodulate_row s R M y = (\<lambda>p. for_loop (xrange (mstart R p) (mstop R (int (length s)) M p))
          (\<lambda>m dpad. and_then (rd1 s (R * m - p)) (\<lambda>a.
                     and_then (rd1 y m) (\<lambda>c. wr2 dpad p m (a * c)))))"
    by (rule ext)+ (simp add: demodulate_row_def Let_def)
  then show ?thesis
    unfolding window_cells_def
    by (simp only:) (rule nested_loops_decide [OF D],
      auto simp: and_then_def rd1_def wr2_def put_def demod_ok_def demod_value_def Let_def)
qed

lemma copy_decide:
  assumes x: "length (buf x) = shape0 x * shape1 x"
  shows "copy_strided_transpose src start step rows x =
     (if (rows \<noteq> shape0 x \<and> rows \<noteq> 1) \<or> (shape0 src \<noteq> shape1 x \<and> shape0 src \<noteq> 1)
      then Inl ShapeMismatch
      else if \<exists>c \<in> set (cells_of (\<lambda>i. xrange 0 (int (shape1 x))) (xrange 0 (int (shape0 x)))).
                \<not> copy_ok src start step rows (shape0 x) (shape1 x) c
      then Inl OutOfBounds
      else Inr (x\<lparr>buf := write_cells (shape1 x) (copy_value src start step rows (shape0 x) (shape1 x))
                  (cells_of (\<lambda>i. xrange 0 (int (shape1 x))) (xrange 0 (int (shape0 x)))) (buf x)\<rparr>))"
proof -
  let ?N = "shape0 x" and ?K = "shape1 x"
  have "for_loop (xrange 0 (int ?N))
          (\<lambda>i. for_loop (xrange 0 (int ?K))
             (\<lambda>j x. and_then (rd2 src (if shape0 src = ?K then j else 0)
                                (start + (if rows = ?N then i else 0) * step))
                      (\<lambda>v. wr2 x i j (Some v)))) x =
        (if \<exists>c \<in> set (cells_of (\<lambda>i. xrange 0 (int ?K)) (xrange 0 (int ?N))).
                \<not> copy_ok src start step rows ?N ?K c
         then Inl OutOfBounds
         else Inr (x\<lparr>buf := write_cells ?K (copy_value src start step rows ?N ?K)
                  (cells_of (\<lambda>i. xrange 0 (int ?K)) (xrange 0 (int ?N))) (buf x)\<rparr>))"
    by (rule nested_loops_decide [OF refl x])
       (auto simp: and_then_def rd1_def rd2_def wr2_def put_def copy_ok_def copy_value_def Let_def)
  then show ?thesis by (simp add: copy_strided_transpose_def Let_def)
qed

lemma codefreq_decide:
  "codefreq fft s bufs step N M R y =
     (if N < 0 \<or> R * M < 0 then Inl NegativeDimensions
      else if \<exists>c \<in> set (window_cells R (int (length s)) M (prange (R * M))).
                \<not> demod_ok s R y (shape1 (demodpad bufs)) (length (buf (demodpad bufs))) c
      then Inl OutOfBounds
      else finish fft (x_aligned bufs) step
             \<lparr>shape0 = nat N, shape1 = nat (R * M), buf = replicate (nat N * nat (R * M)) None\<rparr>
             ((demodpad bufs)\<lparr>buf := write_cells (shape1 (demodpad bufs)) (demod_value s R y)
                  (window_cells R (int (length s)) M (prange (R * M))) (buf (demodpad bufs))\<rparr>))"
  by (simp add: codefreq_def finish_def PyArray_EMPTY_def and_then_def
      demodulate_decide [OF refl refl] Let_def)

lemma set_window_cells:
  "set (window_cells R L M (prange K)) = {(p, m). 0 \<le> p \<and> p < K \<and> mstart R p \<le> m \<and> m < mstop R L M p}"
  by (auto simp: window_cells_def set_cells_of prange_def set_xrange)

lemma window_cell_iff:
  "window_cell R L M W k \<longleftrightarrow>
     (\<exists>p m. 0 \<le> p \<and> p < R * M \<and> mstart R p \<le> m \<and> m < mstop R L M p \<and> k = nat (p * int W + m))"
  by (auto simp: window_cell_def set_window_cells cell_index_def image_iff)

lemma finish_scratch:
  "finish fft xal0 step x dpad = Inr (x', bufs') \<Longrightarrow>
     bufs' = \<lparr>demodpad = dpad, x_aligned = xal0\<lparr>buf := fft dpad\<rparr>\<rparr>"
  by (auto simp: finish_def and_then_def Let_def split: sum.splits prod.splits)

lemma finish_overwrites: "finish fft (xal0\<lparr>buf := b\<rparr>) step x dpad = finish fft xal0 step x dpad"
  by (simp add: finish_def)

lemma codefreq_frame:
  assumes "codefreq fft s bufs step N M R y1 = Inr (x1, bufs1)"
  shows "shape0 (demodpad bufs1) = shape0 (demodpad bufs)
     \<and> shape1 (demodpad bufs1) = shape1 (demodpad bufs)
     \<and> length (buf (demodpad bufs1)) = length (buf (demodpad bufs))
     \<and> (\<forall>k. \<not> window_cell R (int (length s)) M (shape1 (demodpad bufs)) k \<longrightarrow>
            buf (demodpad bufs1) ! k = buf (demodpad bufs) ! k)
     \<and> codefreq fft s bufs1 step N M R y2 = codefreq fft s bufs step N M R y2"
proof -
  let ?D = "demodpad bufs" and ?W = "shape1 (demodpad bufs)"
  let ?cs = "window_cells R (int (length s)) M (prange (R * M))"
  let ?D1 = "?D\<lparr>buf := write_cells ?W (demod_value s R y1) ?cs (buf ?D)\<rparr>"
  let ?x = "\<lparr>shape0 = nat N, shape1 = nat (R * M),
             buf = replicate (nat N * nat (R * M)) (None :: 'a option)\<rparr>"
  have fin: "finish fft (x_aligned bufs) step ?x ?D1 = Inr (x1, bufs1)"
    using assms unfolding codefreq_decide by (simp split: if_splits)
  have b1: "bufs1 = \<lparr>demodpad = ?D1, x_aligned = (x_aligned bufs)\<lparr>buf := fft ?D1\<rparr>\<rparr>"
    using finish_scratch [OF fin] .
  have other: "buf ?D1 ! k = buf ?D ! k" if "\<not> window_cell R (int (length s)) M ?W k" for k
    using that by (simp add: window_cell_def write_cells_other)
  have absorb: "write_cells ?W (demod_value s R y2) ?cs
        (write_cells ?W (demod_value s R y1) ?cs (buf ?D))
      = write_cells ?W (demod_value s R y2) ?cs (buf ?D)"
    by (rule write_cells_absorb) (simp_all add: write_cells_other)
  have "codefreq fft s bufs1 step N M R y2 = codefreq fft s bufs step N M R y2"
    unfolding codefreq_decide b1 by (simp add: absorb finish_overwrites)
  then show ?thesis using other by (simp add: b1)
qed

lemma cell_index_inj:
  assumes "0 \<le> i" "0 \<le> j" "j < int W" "0 \<le> i'" "0 \<le> j'" "j' < int W"
    and e: "cell_index W (i, j) = cell_index W (i', j')"
  shows "i = i' \<and> j = j'"
proof -
  have "0 \<le> i * int W + j" "0 \<le> i' * int W + j'" using assms by simp_all
  then have eq: "i * int W + j = i' * int W + j'"
    using e by (metis cell_index_def nat_0_le old.prod.case)
  have "(i * int W + j) div int W = i" "(i' * int W + j') div int W = i'"
    using assms by (simp_all add: div_pos_pos_trivial)
  then have "i = i'" using eq by simp
  then show ?thesis using eq by simp
qed

lemma cell_index_nat: "cell_index W (int i, int j) = i * W + j"
  by (simp add: cell_index_def nat_add_distrib nat_mult_distrib)

lemma grid_cells:
  "set (cells_of (\<lambda>i. xrange 0 (int K)) (xrange 0 (int N))) = {(i, j). 0 \<le> i \<and> i < int N \<and> 0 \<le> j \<and> j < int K}"
  by (auto simp: set_cells_of set_xrange)

lemma grid_cells_inj: "inj_on (cell_index K) (set (cells_of (\<lambda>i. xrange 0 (int K)) (xrange 0 (int N))))"
  unfolding grid_cells
proof (rule inj_onI)
  fix c d :: "int \<times> int"
  assume c: "c \<in> {(i, j). 0 \<le> i \<and> i < int N \<and> 0 \<le> j \<and> j < int K}"
    and d: "d \<in> {(i, j). 0 \<le> i \<and> i < int N \<and> 0 \<le> j \<and> j < int K}"
    and e: "cell_index K c = cell_index K d"
  obtain i j where cc: "c = (i, j)" by (cases c)
  obtain i' j' where dd: "d = (i', j')" by (cases d)
  have "i = i' \<and> j = j'"
    using c d e unfolding cc dd by (intro cell_index_inj [where W = K]) simp_all
  then show "c = d" by (simp add: cc dd)
qed

lemma write_grid_nth:
  assumes "length l = N * K" "k < N * K"
  shows "write_cells K val (cells_of (\<lambda>i. xrange 0 (int K)) (xrange 0 (int N))) l ! k
           = val (int (k div K), int (k mod K))"
proof -
  have K: "0 < K" using assms(2) by (cases "K = 0") simp_all
  have "k div K < N" using assms(2) K by (simp add: less_mult_imp_div_less)
  then have mem: "(int (k div K), int (k mod K)) \<in> set (cells_of (\<lambda>i. xrange 0 (int K)) (xrange 0 (int N)))"
    using K by (simp add: grid_cells)
  have idx: "cell_index K (int (k div K), int (k mod K)) = k"
    by (simp add: cell_index_nat)
  show ?thesis
    using write_cells_hit [OF mem grid_cells_inj, of l val] assms by (simp add: idx)
qed

lemma slice_axis_bound:
  assumes step: "1 \<le> step" and sl: "slice_axis step A = Inr (start, r)" and i: "i < r"
  shows "start = 0" "int i * step < int A"
proof -
  let ?q = "int A div step"
  have q: "c_div (int A) step = ?q" using step by (simp add: c_div_nonneg)
  show "start = 0" using sl step by (simp add: slice_axis_def Let_def split: if_splits)
  have q0: "0 \<le> ?q" using step by (simp add: pos_imp_zdiv_nonneg_iff)
  have r: "int r \<le> (if int A - step * ?q \<noteq> 0 then ?q + 1 else ?q)"
    using sl step q0 by (simp add: slice_axis_def Let_def q split: if_splits)
  have rem: "int A - step * ?q = int A mod step" by (simp add: minus_mult_div_eq_mod)
  have m: "0 \<le> int A mod step" using step by simp
  show "int i * step < int A"
  proof (cases "int A mod step = 0")
    case True
    then have "int i < ?q" using r rem i by simp
    then have "int i + 1 \<le> ?q" by simp
    then have "(int i + 1) * step \<le> ?q * step" using step by (intro mult_right_mono) simp_all
    also have "\<dots> = int A" using True rem by (simp add: mult.commute)
    finally show ?thesis using step by (simp add: algebra_simps)
  next
    case False
    then have "int i \<le> ?q" using r rem i by simp
    then have "int i * step \<le> ?q * step" using step by (intro mult_right_mono) simp_all
    also have "\<dots> < int A" using False rem m by (simp add: mult.commute)
    finally show ?thesis .
  qed
qed

lemma window_cell_bounds:
  assumes R: "1 \<le> R" and L: "1 \<le> L" and c: "(p, m) \<in> set (window_cells R L M (prange (R * M)))"
  shows "0 \<le> p" "p < R * M" "0 \<le> m" "m < M" "0 \<le> R * m - p" "R * m - p < L"
proof -
  have p: "0 \<le> p" "p < R * M" and w: "mstart R p \<le> m" "m < mstop R L M p"
    using c by (simp_all add: set_window_cells)
  have L': "1 \<le> p + L" using p L by simp
  have lo: "p \<le> R * m" using w(1) mstart_le_iff [OF p(1) R, of m] by simp
  have hi: "m < M" "R * m - p \<le> L - 1" using w(2) mstop_less_iff [OF R L', of m M] by simp_all
  have "0 \<le> R * m" using lo p by simp
  then have "0 \<le> m" using R by (simp add: zero_le_mult_iff)
  then show "0 \<le> p" "p < R * M" "0 \<le> m" "m < M" "0 \<le> R * m - p" "R * m - p < L"
    using p lo hi by simp_all
qed

lemma demod_all_ok:
  assumes R: "1 \<le> R" and s: "s \<noteq> []" and y: "nat M \<le> length y" and W: "M \<le> int W"
    and len: "int len = R * M * int W"
    and c: "c \<in> set (window_cells R (int (length s)) M (prange (R * M)))"
  shows "demod_ok s R y W len c"
proof -
  obtain p m where pm: "c = (p, m)" by (cases c)
  have L: "1 \<le> int (length s)" using s by (cases s) simp_all
  note b = window_cell_bounds [OF R L c [unfolded pm]]
  have mW: "m < int W" using b(4) W by simp
  have "0 \<le> p * int W + m" "p * int W + m < R * M * int W"
    using flat_index_bound [OF b(1) b(2) b(3) mW] by simp_all
  moreover have "m < int (length y)" using b(4) y by linarith
  ultimately show ?thesis using b len by (simp add: pm demod_ok_def)
qed

lemma window_cells_inj:
  assumes "1 \<le> R" "1 \<le> L" "M \<le> int W"
  shows "inj_on (cell_index W) (set (window_cells R L M (prange (R * M))))"
proof (rule inj_onI)
  fix c d assume c: "c \<in> set (window_cells R L M (prange (R * M)))"
    and d: "d \<in> set (window_cells R L M (prange (R * M)))"
    and e: "cell_index W c = cell_index W d"
  obtain p m where cc: "c = (p, m)" by (cases c)
  obtain p' m' where dd: "d = (p', m')" by (cases d)
  note b = window_cell_bounds [OF assms(1,2) c [unfolded cc]]
  note b' = window_cell_bounds [OF assms(1,2) d [unfolded dd]]
  have "p = p' \<and> m = m'"
    using e b b' assms(3) unfolding cc dd by (intro cell_index_inj [where W = W]) simp_all
  then show "c = d" by (simp add: cc dd)
qed

lemma demodulated_entry:
  assumes R: "1 \<le> R" and L: "1 \<le> int (length s)" and W: "M \<le> int W"
    and len: "int (length l) = R * M * int W"
    and zero: "\<forall>k < length l. \<not> window_cell R (int (length s)) M W k \<longrightarrow> l ! k = 0"
    and p: "0 \<le> p" "p < R * M" and m: "0 \<le> m" "m < M"
  shows "write_cells W (demod_value s R y) (window_cells R (int (length s)) M (prange (R * M))) l
           ! nat (p * int W + m)
         = (if mstart R p \<le> m \<and> m < mstop R (int (length s)) M p
            then s ! nat (R * m - p) * y ! nat m else 0)"
proof -
  let ?cs = "window_cells R (int (length s)) M (prange (R * M))"
  have mW: "m < int W" using m W by simp
  have k: "0 \<le> p * int W + m" "p * int W + m < R * M * int W"
    using flat_index_bound [OF p m(1) mW] by simp_all
  then have klen: "nat (p * int W + m) < length l" using len by linarith
  have idx: "cell_index W (p, m) = nat (p * int W + m)" by (simp add: cell_index_def)
  show ?thesis
  proof (cases "mstart R p \<le> m \<and> m < mstop R (int (length s)) M p")
    case True
    then have mem: "(p, m) \<in> set ?cs" using p by (simp add: set_window_cells)
    have "write_cells W (demod_value s R y) ?cs l ! cell_index W (p, m) = demod_value s R y (p, m)"
      using mem window_cells_inj [OF R L W] by (rule write_cells_hit) (simp add: idx klen)
    then show ?thesis using True by (simp add: idx demod_value_def)
  next
    case False
    have notin: "cell_index W (p, m) \<notin> cell_index W ` set ?cs"
    proof
      assume "cell_index W (p, m) \<in> cell_index W ` set ?cs"
      then obtain d where d: "d \<in> set ?cs" and e: "cell_index W (p, m) = cell_index W d" by auto
      obtain p' m' where dd: "d = (p', m')" by (cases d)
      note b' = window_cell_bounds [OF R L d [unfolded dd]]
      have "p = p' \<and> m = m'"
        using e b' p m mW W unfolding dd by (intro cell_index_inj [where W = W]) simp_all
      then have "(p, m) \<in> set ?cs" using d dd by simp
      then show False using False by (simp add: set_window_cells)
    qed
    then have "write_cells W (demod_value s R y) ?cs l ! cell_index W (p, m) = l ! cell_index W (p, m)"
      by (rule write_cells_other)
    moreover have "l ! cell_index W (p, m) = 0"
      using zero notin klen by (simp add: idx window_cell_def)
    ultimately have "write_cells W (demod_value s R y) ?cs l ! nat (p * int W + m) = 0"
      by (simp add: idx)
    then show ?thesis using False by auto
  qed
qed

lemma finish_result:
  assumes step: "1 \<le> step" and sl: "slice_axis step (shape1 X) = Inr (0, N)"
    and X: "shape0 X = K" and len: "length (fft D) = K * shape1 X"
  shows "finish fft X step \<lparr>shape0 = N, shape1 = K, buf = replicate (N * K) None\<rparr> D =
     Inr (\<lparr>shape0 = N, shape1 = K,
           buf = map (\<lambda>k. Some (fft D ! ((k mod K) * shape1 X + (k div K) * nat step))) [0..<N * K]\<rparr>,
          \<lparr>demodpad = D, x_aligned = X\<lparr>buf := fft D\<rparr>\<rparr>)"
proof -
  let ?A = "shape1 X"
  let ?X' = "X\<lparr>buf := fft D\<rparr>"
  let ?x = "\<lparr>shape0 = N, shape1 = K, buf = replicate (N * K) (None :: 'a option)\<rparr>"
  let ?cs = "cells_of (\<lambda>i. xrange 0 (int K)) (xrange 0 (int N))"
  have ok: "copy_ok ?X' 0 step N N K c" if c: "c \<in> set ?cs" for c
  proof -
    obtain i j where cc: "c = (i, j)" by (cases c)
    have b: "0 \<le> i" "i < int N" "0 \<le> j" "j < int K" using c by (simp_all add: cc grid_cells)
    have "nat i < N" using b by simp
    then have "int (nat i) * step < int ?A" by (rule slice_axis_bound(2) [OF step sl])
    then have istep: "0 \<le> i * step" "i * step < int ?A" using b step by simp_all
    have "0 \<le> j * int ?A + i * step" "j * int ?A + i * step < int K * int ?A"
      using flat_index_bound [OF b(3) b(4) istep] by simp_all
    moreover have "0 \<le> i * int K + j" "i * int K + j < int N * int K"
      using flat_index_bound [OF b(1) b(2) b(3) b(4)] by simp_all
    ultimately show ?thesis using X len by (simp add: cc copy_ok_def)
  qed
  have cp: "copy_strided_transpose ?X' 0 step N ?x =
      Inr (?x\<lparr>buf := write_cells K (copy_value ?X' 0 step N N K) ?cs (buf ?x)\<rparr>)"
    using copy_decide [of ?x ?X' 0 step N] ok X by auto
  have val: "copy_value ?X' 0 step N N K (int i, int j) = Some (fft D ! (j * ?A + i * nat step))" for i j
    using X step by (simp add: copy_value_def nat_add_distrib nat_mult_distrib)
  have "write_cells K (copy_value ?X' 0 step N N K) ?cs (replicate (N * K) None)
      = map (\<lambda>k. Some (fft D ! ((k mod K) * ?A + (k div K) * nat step))) [0..<N * K]"
  proof (rule nth_equalityI)
    show "length (write_cells K (copy_value ?X' 0 step N N K) ?cs (replicate (N * K) None))
        = length (map (\<lambda>k. Some (fft D ! ((k mod K) * ?A + (k div K) * nat step))) [0..<N * K])"
      by simp
  next
    fix k assume "k < length (write_cells K (copy_value ?X' 0 step N N K) ?cs (replicate (N * K) None))"
    then have k: "k < N * K" by simp
    show "write_cells K (copy_value ?X' 0 step N N K) ?cs (replicate (N * K) None) ! k
        = map (\<lambda>k. Some (fft D ! ((k mod K) * ?A + (k div K) * nat step))) [0..<N * K] ! k"
      using write_grid_nth [OF _ k, of "replicate (N * K) None" "copy_value ?X' 0 step N N K"] k
      by (simp add: val)
  qed
  then show ?thesis using cp sl by (simp add: finish_def and_then_def)
qed

lemma window_subset:
  assumes "1 \<le> R" "1 \<le> L" "0 \<le> p"
  shows "{mstart R p..<mstop R L M p} \<subseteq> {0..<M}"
proof
  fix m assume m: "m \<in> {mstart R p..<mstop R L M p}"
  have L': "1 \<le> p + L" using assms by simp
  have lo: "p \<le> R * m" using m mstart_le_iff [OF assms(3,1), of m] by simp
  have hi: "m < M" using m mstop_less_iff [OF assms(1) L', of m M] by simp
  have "0 \<le> R * m" using lo assms(3) by simp
  then have "0 \<le> m" using assms(1) by (simp add: zero_le_mult_iff)
  then show "m \<in> {0..<M}" using hi by simp
qed

lemma sum_nat_int: "(\<Sum>m < n. f (int m)) = (\<Sum>m \<in> {0..<int n}. f m)"
  by (rule sum.reindex_bij_witness [where i = nat and j = int]) auto

lemma scaled_sum_is_entry:
  fixes dftmat :: "complex memview2"
  assumes R: "1 \<le> R" and s: "s \<noteq> []" and p: "0 \<le> p" and n: "n < shape0 dftmat"
    and Dv: "\<And>m. m < shape1 dftmat \<Longrightarrow> Dv m =
         (if mstart R p \<le> int m \<and> int m < mstop R (int (length s)) (int (shape1 dftmat)) p
          then map (\<lambda>z. cnj z / complex_of_real (sqrt (real (shape0 dftmat)))) s ! nat (R * int m - p) * y ! m
          else 0)"
  shows "complex_of_real (sqrt (real (shape0 dftmat)))
           * (\<Sum>m < shape1 dftmat. buf dftmat ! (n * shape1 dftmat + m) * Dv m)
         = entry_value (map cnj s) dftmat R y p (int n)"
proof -
  let ?c = "complex_of_real (sqrt (real (shape0 dftmat)))"
  let ?M = "int (shape1 dftmat)" and ?L = "int (length s)"
  let ?win = "{mstart R p..<mstop R ?L ?M p}"
  let ?f = "summand (map cnj s) dftmat R y p (int n)"
  have L: "1 \<le> ?L" using s by (cases s) simp_all
  have c0: "?c \<noteq> 0" using n by simp
  have sub: "?win \<subseteq> {0..<?M}" by (rule window_subset [OF R L p])
  have tm: "?c * (buf dftmat ! (n * shape1 dftmat + m) * Dv m)
      = (if int m \<in> ?win then ?f (int m) else 0)" if m: "m < shape1 dftmat" for m
  proof (cases "int m \<in> ?win")
    case True
    have L': "1 \<le> p + ?L" using p L by simp
    have lo: "p \<le> R * int m" using True mstart_le_iff [OF p R, of "int m"] by simp
    have hi: "R * int m - p \<le> ?L - 1" using True mstop_less_iff [OF R L', of "int m" ?M] by simp
    have i: "nat (R * int m - p) < length s" using lo hi by linarith
    have idx: "nat (int n * ?M + int m) = n * shape1 dftmat + m"
      by (simp add: nat_add_distrib nat_mult_distrib)
    show ?thesis
      using True Dv [OF m] i c0 by (simp add: summand_def idx del: of_nat_mult of_nat_add)
  next
    case False
    then have "Dv m = 0" using Dv [OF m] by auto
    then show ?thesis using False by auto
  qed
  have "?c * (\<Sum>m < shape1 dftmat. buf dftmat ! (n * shape1 dftmat + m) * Dv m)
      = (\<Sum>m < shape1 dftmat. ?c * (buf dftmat ! (n * shape1 dftmat + m) * Dv m))"
    by (rule sum_distrib_left)
  also have "\<dots> = (\<Sum>m < shape1 dftmat. if int m \<in> ?win then ?f (int m) else 0)"
    by (rule sum.cong) (simp_all add: tm)
  also have "\<dots> = (\<Sum>m \<in> {0..<?M}. if m \<in> ?win then ?f m else 0)"
    by (rule sum_nat_int)
  also have "\<dots> = sum ?f ({0..<?M} \<inter> ?win)"
    by (rule sum.inter_restrict [symmetric]) simp
  also have "{0..<?M} \<inter> ?win = ?win" using sub by blast
  finally show ?thesis by (simp add: entry_value_sum)
qed



section \<open>DirectSum on a non-empty waveform\<close>

text \<open>
  For a waveform of at least one sample the window computed by the kernels is the
  support of the waveform and the callable returned by \<open>DirectSumCython\<close> returns the
  sums over it. For every waveform the result of \<open>direct_sum\<close> on a linear combination
  of two signals of one length is the combination of its results on the two.
\<close>

lemma window_is_support:
  assumes "0 \<le> p" "1 \<le> R" "1 \<le> p + L"
  shows "{mstart R p..<mstop R L M p} = {m. 0 \<le> m \<and> m < M \<and> 0 \<le> R * m - p \<and> R * m - p \<le> L - 1}"
proof (rule set_eqI)
  fix m
  have pos: "0 \<le> m" if "p \<le> R * m"
  proof -
    have "0 \<le> R * m" using that assms(1) by simp
    then show ?thesis using assms(2) by (simp add: zero_le_mult_iff)
  qed
  show "m \<in> {mstart R p..<mstop R L M p} \<longleftrightarrow>
        m \<in> {m. 0 \<le> m \<and> m < M \<and> 0 \<le> R * m - p \<and> R * m - p \<le> L - 1}"
    using mstart_le_iff [OF assms(1,2), of m] mstop_less_iff [OF assms(2,3), of m M] pos by auto
qed

lemma DirectSumCython_nonempty_waveform:
  assumes "contiguous dftmat" "length y = shape1 dftmat" "1 \<le> R" "s \<noteq> []"
    and n: "n < shape0 dftmat" and p: "p < nat (R * int (shape1 dftmat))"
  shows "\<exists>x. DirectSumCython s dftmat R y = Inr x
           \<and> shape0 x = shape0 dftmat \<and> shape1 x = nat (R * int (shape1 dftmat))
           \<and> buf x ! (n * shape1 x + p)
               = Some (\<Sum>m \<in> {\<lceil>real p / real_of_int R\<rceil>
                                 ..<min (int (shape1 dftmat))
                                     (\<lfloor>real_of_int (int p + int (length s) - 1) / real_of_int R\<rfloor> + 1)}.
                         cnj (s ! nat (R * m - int p))
                           * buf dftmat ! nat (int n * int (shape1 dftmat) + m) * y ! nat m)"
proof -
  let ?M = "int (shape1 dftmat)" and ?L = "int (length s)"
  have run: "DirectSumCython s dftmat R y = Inr (direct_sum_array (map cnj s) dftmat R y)"
    using assms(1-4) by (intro DirectSumCython_ok) simp_all
  have L: "1 \<le> int p + ?L" using assms(4) by (cases s) simp_all
  have lo: "mstart R (int p) = \<lceil>real p / real_of_int R\<rceil>"
    using mstart_ceiling [of "int p" R] assms(3) by simp
  have hi: "mstop R ?L ?M (int p)
      = min ?M (\<lfloor>real_of_int (int p + ?L - 1) / real_of_int R\<rfloor> + 1)"
    by (rule mstop_floor [OF assms(3) L])
  have "summand (map cnj s) dftmat R y (int p) (int n) m
      = cnj (s ! nat (R * m - int p)) * buf dftmat ! nat (int n * ?M + m) * y ! nat m"
    if m: "m \<in> {mstart R (int p)..<mstop R ?L ?M (int p)}" for m
  proof -
    have "0 \<le> R * m - int p" "R * m - int p \<le> ?L - 1"
      using m window_is_support [OF _ assms(3) L, of ?M] by auto
    then have "nat (R * m - int p) < length s" by linarith
    then show ?thesis by (simp add: summand_def)
  qed
  then have "entry_value (map cnj s) dftmat R y (int p) (int n)
      = (\<Sum>m \<in> {mstart R (int p)..<mstop R ?L ?M (int p)}.
           cnj (s ! nat (R * m - int p)) * buf dftmat ! nat (int n * ?M + m) * y ! nat m)"
    by (simp add: entry_value_sum)
  then show ?thesis
    using run direct_sum_array_nth [OF n p, of "map cnj s" y] unfolding lo hi by simp
qed

lemma same_length_reads_ok:
  "length y = length y' \<Longrightarrow> reads_ok s_conj dftmat R y p n m \<longleftrightarrow> reads_ok s_conj dftmat R y' p n m"
  by (simp add: reads_ok_def)

lemma same_length_column_bad:
  "length y = length y' \<Longrightarrow> column_bad s_conj dftmat R y p \<longleftrightarrow> column_bad s_conj dftmat R y' p"
  by (simp add: column_bad_def entry_bad_def same_length_reads_ok [of y y'])

lemma entry_value_combination:
  fixes s_conj :: "'a::comm_semiring_0 list"
  assumes len: "length y1 = length y2" and ok: "\<not> entry_bad s_conj dftmat R y1 p n"
  shows "entry_value s_conj dftmat R (map2 (\<lambda>u v. a * u + b * v) y1 y2) p n
           = a * entry_value s_conj dftmat R y1 p n + b * entry_value s_conj dftmat R y2 p n"
proof -
  let ?y = "map2 (\<lambda>u v. a * u + b * v) y1 y2"
  let ?win = "{mstart R p..<mstop R (int (length s_conj)) (int (shape1 dftmat)) p}"
  have "summand s_conj dftmat R ?y p n m
      = a * summand s_conj dftmat R y1 p n m + b * summand s_conj dftmat R y2 p n m"
    if m: "m \<in> ?win" for m
  proof -
    have "reads_ok s_conj dftmat R y1 p n m" using ok m by (auto simp: entry_bad_def set_xrange)
    then have "nat m < length y1" "nat m < length y2" using len by (auto simp: reads_ok_def)
    then have "?y ! nat m = a * y1 ! nat m + b * y2 ! nat m" by simp
    then show ?thesis by (simp add: summand_def algebra_simps)
  qed
  then have "(\<Sum>m \<in> ?win. summand s_conj dftmat R ?y p n m)
      = (\<Sum>m \<in> ?win. a * summand s_conj dftmat R y1 p n m + b * summand s_conj dftmat R y2 p n m)"
    by (intro sum.cong refl)
  then show ?thesis
    by (simp add: entry_value_sum sum.distrib sum_distrib_left)
qed

lemma map2_same: "map2 g (map f1 xs) (map f2 xs) = map (\<lambda>i. g (f1 i) (f2 i)) xs"
  by (induction xs) simp_all

lemma direct_sum_array_combination:
  fixes s_conj :: "'a::comm_semiring_0 list"
  assumes len: "length y1 = length y2"
    and ok: "\<not> (\<exists>p\<in>{0..<R * int (shape1 dftmat)}. column_bad s_conj dftmat R y1 p)"
  shows "direct_sum_array s_conj dftmat R (map2 (\<lambda>u v. a * u + b * v) y1 y2)
     = (direct_sum_array s_conj dftmat R y1)
         \<lparr>buf := map2 (\<lambda>u v. case (u, v) of (Some u', Some v') \<Rightarrow> Some (a * u' + b * v') | _ \<Rightarrow> None)
                   (buf (direct_sum_array s_conj dftmat R y1)) (buf (direct_sum_array s_conj dftmat R y2))\<rparr>"
proof -
  let ?K = "nat (R * int (shape1 dftmat))"
  let ?y = "map2 (\<lambda>u v. a * u + b * v) y1 y2"
  have "entry_value s_conj dftmat R ?y (int (i mod ?K)) (int (i div ?K))
      = a * entry_value s_conj dftmat R y1 (int (i mod ?K)) (int (i div ?K))
        + b * entry_value s_conj dftmat R y2 (int (i mod ?K)) (int (i div ?K))"
    if i: "i < shape0 dftmat * ?K" for i
  proof -
    have K: "0 < ?K" using i by (cases "?K = 0") simp_all
    then have p: "int (i mod ?K) \<in> {0..<R * int (shape1 dftmat)}" by (simp add: zmod_int)
    have "i div ?K < shape0 dftmat" using i K by (simp add: less_mult_imp_div_less)
    then have n: "int (i div ?K) \<in> set (xrange 0 (int (shape0 dftmat)))" by (simp add: set_xrange)
    have "\<not> entry_bad s_conj dftmat R y1 (int (i mod ?K)) (int (i div ?K))"
      using ok p n unfolding column_bad_def by blast
    then show ?thesis by (rule entry_value_combination [OF len])
  qed
  then show ?thesis by (simp add: direct_sum_array_def Let_def map2_same)
qed

lemma direct_sum_combination:
  fixes s_conj :: "'a::comm_semiring_0 list"
  assumes len: "length y1 = length y2"
  shows "direct_sum s_conj dftmat R (map2 (\<lambda>u v. a * u + b * v) y1 y2)
     = linear_combination a (direct_sum s_conj dftmat R y1) b (direct_sum s_conj dftmat R y2)"
proof -
  let ?y = "map2 (\<lambda>u v. a * u + b * v) y1 y2"
  have ps: "set (prange (R * int (shape1 dftmat))) = {0..<R * int (shape1 dftmat)}"
    by (simp add: prange_def set_xrange)
  have l: "length ?y = length y1" "length y2 = length y1" using len by simp_all
  have bad: "column_bad s_conj dftmat R ?y p \<longleftrightarrow> column_bad s_conj dftmat R y1 p"
    "column_bad s_conj dftmat R y2 p \<longleftrightarrow> column_bad s_conj dftmat R y1 p" for p
    using same_length_column_bad [OF l(1)] same_length_column_bad [OF l(2)] by simp_all
  show ?thesis
  proof (cases "\<exists>p\<in>{0..<R * int (shape1 dftmat)}. column_bad s_conj dftmat R y1 p")
    case True
    then show ?thesis
      unfolding direct_sum_def direct_sum_in_order_result [OF ps] bad
      by (simp add: linear_combination_def and_then_def)
  next
    case False
    then show ?thesis
      unfolding direct_sum_def direct_sum_in_order_result [OF ps] bad
      using direct_sum_array_combination [OF len False, of a b]
      by (simp add: linear_combination_def and_then_def)
  qed
qed

section \<open>Evaluation on concrete inputs\<close>

lemmas kernel_eval =
  direct_sum_def direct_sum_in_order_def direct_sum_column_def accumulate_def
  prange_def xrange_unfold PyArray_EMPTY_def and_then_def mstart_def mstop_def c_div_def
  rd1_def rd2_def wr2_def Let_def eval_nat_numeral

lemmas codefreq_eval =
  CodeFreqCython_def codefreq_def demodulate_row_def slice_axis_def copy_strided_transpose_def
  DirectSumCython_def kernel_eval

section \<open>Claims\<close>

text \<open>
  C1. The claim is that for every waveform the callable returned by \<open>DirectSumCython\<close>
  yields the sums over the window with upper bound \<open>min(M, floor((p + L - 1)/R) + 1)\<close>. For
  the empty waveform, \<open>R = 2\<close> and \<open>M = N = 1\<close> that window is empty at \<open>p = 0\<close>, so
  the claimed entry is the empty sum; the kernel instead enters the loop with \<open>m = 0\<close> and
  reads \<open>s_conj[0]\<close> past the end of the empty buffer. For every non-empty waveform the
  claimed sums are what the callable returns (lemma \<open>DirectSumCython_nonempty_waveform\<close>).
\<close>

theorem direct_sum_empty_waveform:
  "DirectSumCython [] \<lparr>shape0 = 1, shape1 = 1, buf = [1]\<rparr> 2 [1] = Inl OutOfBounds
   \<and> {\<lceil>real_of_int 0 / real_of_int 2\<rceil>..<min 1 (\<lfloor>real_of_int (0 + 0 - 1) / real_of_int 2\<rfloor> + 1)} = {}"
  by (simp add: DirectSumCython_def kernel_eval)

text \<open>
  C2. The claim is that the two callables return equal arrays whenever the executor,
  applied to \<open>demodpad\<close> as the demodulation of \<open>y\<close> leaves it, computes the scaled matrix
  product. As stated it fails: an entry of \<open>demodpad\<close> outside the support windows that
  is not zero enters the transform and the output of \<open>CodeFreqCython\<close>, while
  \<open>DirectSumCython\<close> never sees it. With \<open>demodpad\<close> zero outside the windows, which the
  caller of the factory has to provide, and a non-empty waveform the two outputs are
  equal: \<open>demodpad\<close> has \<open>R*M\<close> rows and at least \<open>M\<close> columns, \<open>x_aligned\<close> has \<open>R*M\<close> rows,
  the slice \<open>[::step]\<close> of its columns has \<open>N\<close> entries, and the executor, on the
  demodulated buffer, writes \<open>x_aligned[p, n*step] = sqrt(N) * sum over m < M of
  dftmat[n, m] * demodpad[p, m]\<close>. The condition on the executor is asked of this one
  buffer only: a transform over the whole zero-padded row meets it because the pad is
  zero there.
\<close>

theorem codefreq_matches_direct_sum:
  assumes dft: "contiguous dftmat" and y: "length y = shape1 dftmat" and R: "1 \<le> R" and s: "s \<noteq> []"
    and D: "contiguous (demodpad bufs)" "shape0 (demodpad bufs) = nat R * shape1 dftmat"
      "shape1 dftmat \<le> shape1 (demodpad bufs)"
    and zero: "zero_outside_windows R (int (length s)) (int (shape1 dftmat)) (demodpad bufs)"
    and X: "contiguous (x_aligned bufs)" "shape0 (x_aligned bufs) = nat R * shape1 dftmat"
    and step: "1 \<le> step" "slice_axis step (shape1 (x_aligned bufs)) = Inr (0, shape0 dftmat)"
    and fft: "computes_scaled_dft fft dftmat step s R y bufs"
  shows "\<exists>x bufs'. CodeFreqCython fft s step (int (shape0 dftmat)) (int (shape1 dftmat)) R bufs y = Inr (x, bufs')
           \<and> DirectSumCython s dftmat R y = Inr x"
proof -
  let ?N = "shape0 dftmat" and ?Mn = "shape1 dftmat"
  let ?M = "int ?Mn" and ?K = "nat (R * int ?Mn)"
  let ?Dp = "demodpad bufs" and ?X = "x_aligned bufs"
  let ?W = "shape1 ?Dp" and ?A = "shape1 ?X"
  let ?c = "complex_of_real (sqrt (real ?N))"
  let ?s' = "map (\<lambda>z. cnj z / ?c) s"
  let ?cs = "window_cells R (int (length ?s')) ?M (prange (R * ?M))"
  let ?D1 = "?Dp\<lparr>buf := write_cells ?W (demod_value ?s' R y) ?cs (buf ?Dp)\<rparr>"
  let ?x0 = "\<lparr>shape0 = ?N, shape1 = ?K, buf = replicate (?N * ?K) (None :: complex option)\<rparr>"
  have K: "?K = nat R * ?Mn" using R by (simp add: nat_mult_distrib)
  have s': "?s' \<noteq> []" "length ?s' = length s" using s by simp_all
  have L: "1 \<le> int (length ?s')" using s by (cases s) simp_all
  have len: "int (length (buf ?Dp)) = R * ?M * int ?W"
    using D(1,2) R by (simp add: contiguous_def)
  have W: "?M \<le> int ?W" using D(3) by simp
  have ok: "\<not> (\<exists>c \<in> set ?cs. \<not> demod_ok ?s' R y ?W (length (buf ?Dp)) c)"
    using demod_all_ok [OF R s'(1) _ W len] y by auto
  have "0 \<le> R * ?M" using R by (intro mult_nonneg_nonneg) simp_all
  then have pos: "\<not> (int ?N < 0 \<or> R * ?M < 0)" by simp
  have cf: "CodeFreqCython fft s step (int ?N) ?M R bufs y = finish fft ?X step ?x0 ?D1"
    unfolding CodeFreqCython_def Let_def codefreq_decide using ok pos by simp
  have inst: "length (fft ?D1) = length (buf ?X) \<and>
        (\<forall>n < ?N. \<forall>p < shape0 ?X.
           fft ?D1 ! (p * ?A + n * nat step)
             = ?c * (\<Sum>m < ?Mn. buf dftmat ! (n * ?Mn + m) * buf ?D1 ! (p * shape1 ?D1 + m)))"
  proof -
    have "demodulated s (int ?N) ?M R y bufs = Inr ?D1"
      unfolding demodulated_def using ok by (simp add: demodulate_decide [OF refl refl])
    from fft [unfolded computes_scaled_dft_def, rule_format, OF this]
    show ?thesis by simp
  qed
  have flen: "length (fft ?D1) = ?K * ?A" using inst X by (simp add: contiguous_def K)
  have XK: "shape0 ?X = ?K" using X(2) K by simp
  have fin: "finish fft ?X step ?x0 ?D1 =
     Inr (\<lparr>shape0 = ?N, shape1 = ?K,
           buf = map (\<lambda>k. Some (fft ?D1 ! ((k mod ?K) * ?A + (k div ?K) * nat step))) [0..<?N * ?K]\<rparr>,
          \<lparr>demodpad = ?D1, x_aligned = ?X\<lparr>buf := fft ?D1\<rparr>\<rparr>)"
    by (rule finish_result [where fft = fft and D = ?D1, OF step XK flen])
  have zero': "\<forall>k < length (buf ?Dp). \<not> window_cell R (int (length ?s')) ?M ?W k \<longrightarrow> buf ?Dp ! k = 0"
    using zero by (simp add: zero_outside_windows_def)
  have entry: "fft ?D1 ! ((k mod ?K) * ?A + (k div ?K) * nat step)
      = entry_value (map cnj s) dftmat R y (int (k mod ?K)) (int (k div ?K))"
    if k: "k < ?N * ?K" for k
  proof -
    have K0: "0 < ?K" using k by (cases "?K = 0") simp_all
    have n: "k div ?K < ?N" using k K0 by (simp add: less_mult_imp_div_less)
    have p: "k mod ?K < shape0 ?X" using K0 XK by simp
    have pint: "0 \<le> int (k mod ?K)" "int (k mod ?K) < R * ?M" using K0 by (simp_all add: zmod_int)
    have "fft ?D1 ! ((k mod ?K) * ?A + (k div ?K) * nat step)
        = ?c * (\<Sum>m < ?Mn. buf dftmat ! ((k div ?K) * ?Mn + m) * buf ?D1 ! ((k mod ?K) * shape1 ?D1 + m))"
      using inst n p by blast
    also have "\<dots> = entry_value (map cnj s) dftmat R y (int (k mod ?K)) (int (k div ?K))"
    proof (rule scaled_sum_is_entry [OF R s pint(1) n])
      fix m assume m: "m < ?Mn"
      have idx: "nat (int (k mod ?K) * int ?W + int m) = (k mod ?K) * ?W + m"
        by (simp add: nat_add_distrib nat_mult_distrib)
      have "buf ?D1 ! nat (int (k mod ?K) * int ?W + int m)
          = (if mstart R (int (k mod ?K)) \<le> int m \<and> int m < mstop R (int (length ?s')) ?M (int (k mod ?K))
             then ?s' ! nat (R * int m - int (k mod ?K)) * y ! nat (int m) else 0)"
        using demodulated_entry [OF R L W len zero' pint, of "int m" y] m by simp
      then show "buf ?D1 ! ((k mod ?K) * shape1 ?D1 + m) =
         (if mstart R (int (k mod ?K)) \<le> int m \<and> int m < mstop R (int (length s)) ?M (int (k mod ?K))
          then ?s' ! nat (R * int m - int (k mod ?K)) * y ! m else 0)"
        unfolding idx by simp
    qed
    finally show ?thesis .
  qed
  have "\<lparr>shape0 = ?N, shape1 = ?K,
         buf = map (\<lambda>k. Some (fft ?D1 ! ((k mod ?K) * ?A + (k div ?K) * nat step))) [0..<?N * ?K]\<rparr>
      = direct_sum_array (map cnj s) dftmat R y"
    using entry by (simp add: direct_sum_array_def Let_def)
  moreover have "DirectSumCython s dftmat R y = Inr (direct_sum_array (map cnj s) dftmat R y)"
    using dft y R s by (intro DirectSumCython_ok) simp_all
  ultimately show ?thesis using cf fin by simp
qed

theorem codefreq_matches_direct_sum_witness:
  "contiguous \<lparr>shape0 = 2, shape1 = 1, buf = [1 / complex_of_real (sqrt 2), 1 / complex_of_real (sqrt 2)]\<rparr>
   \<and> zero_outside_windows 1 (int (length [1 :: complex])) 1 \<lparr>shape0 = 1, shape1 = 2, buf = [0, 0 :: complex]\<rparr>
   \<and> slice_axis 1 2 = Inr (0, 2)
   \<and> computes_scaled_dft (\<lambda>D. [buf D ! 0 + buf D ! 1, buf D ! 0 - buf D ! 1])
         \<lparr>shape0 = 2, shape1 = 1, buf = [1 / complex_of_real (sqrt 2), 1 / complex_of_real (sqrt 2)]\<rparr>
         1 [1] 1 [5]
         \<lparr>demodpad = \<lparr>shape0 = 1, shape1 = 2, buf = [0, 0]\<rparr>,
          x_aligned = \<lparr>shape0 = 1, shape1 = 2, buf = [0, 0]\<rparr>\<rparr>
   \<and> (\<exists>x bufs'. CodeFreqCython (\<lambda>D. [buf D ! 0 + buf D ! 1, buf D ! 0 - buf D ! 1]) [1] 1 2 1 1
           \<lparr>demodpad = \<lparr>shape0 = 1, shape1 = 2, buf = [0, 0]\<rparr>,
            x_aligned = \<lparr>shape0 = 1, shape1 = 2, buf = [0, 0]\<rparr>\<rparr> [5]
           = Inr (x, bufs')
         \<and> DirectSumCython [1]
             \<lparr>shape0 = 2, shape1 = 1, buf = [1 / complex_of_real (sqrt 2), 1 / complex_of_real (sqrt 2)]\<rparr>
             1 [5] = Inr x)"
proof -
  let ?d = "\<lparr>shape0 = 2, shape1 = 1,
             buf = [1 / complex_of_real (sqrt 2), 1 / complex_of_real (sqrt 2)]\<rparr>"
  let ?B = "\<lparr>demodpad = \<lparr>shape0 = 1, shape1 = 2, buf = [0, 0 :: complex]\<rparr>,
             x_aligned = \<lparr>shape0 = 1, shape1 = 2, buf = [0, 0 :: complex]\<rparr>\<rparr>"
  let ?fft = "\<lambda>D :: complex memview2. [buf D ! 0 + buf D ! 1, buf D ! 0 - buf D ! 1]"
  have h1: "contiguous ?d" by (simp add: contiguous_def)
  have h2: "length [5 :: complex] = shape1 ?d" by simp
  have h3: "(1 :: int) \<le> 1" by simp
  have h4: "[1 :: complex] \<noteq> []" by simp
  have h5: "contiguous (demodpad ?B)" "shape0 (demodpad ?B) = nat 1 * shape1 ?d"
    "shape1 ?d \<le> shape1 (demodpad ?B)" by (simp_all add: contiguous_def)
  have h6: "zero_outside_windows 1 (int (length [1 :: complex])) (int (shape1 ?d)) (demodpad ?B)"
    by (simp add: zero_outside_windows_def less_Suc_eq eval_nat_numeral)
  have h7: "contiguous (x_aligned ?B)" "shape0 (x_aligned ?B) = nat 1 * shape1 ?d"
    by (simp_all add: contiguous_def)
  have h8: "slice_axis 1 (shape1 (x_aligned ?B)) = Inr (0, shape0 ?d)"
    by (simp add: slice_axis_def c_div_def)
  have dem: "demodulated [1] (int (shape0 ?d)) (int (shape1 ?d)) 1 [5] ?B
      = Inr \<lparr>shape0 = 1, shape1 = 2, buf = [5 / complex_of_real (sqrt 2), 0]\<rparr>"
    by (simp add: demodulated_def demodulate_row_def kernel_eval)
  have h9: "computes_scaled_dft ?fft ?d 1 [1] 1 [5] ?B"
    unfolding computes_scaled_dft_def dem
    by (simp add: less_Suc_eq eval_nat_numeral)
  have "\<exists>x bufs'. CodeFreqCython ?fft [1] 1 (int (shape0 ?d)) (int (shape1 ?d)) 1 ?B [5] = Inr (x, bufs')
          \<and> DirectSumCython [1] ?d 1 [5] = Inr x"
    by (rule codefreq_matches_direct_sum [OF h1 h2 h3 h4 h5 h6 h7 h3 h8 h9])
  then show ?thesis using h1 h6 h8 h9 by simp
qed

text \<open>
  C2 as it is written, without the condition on \<open>demodpad\<close>: with \<open>N = 1\<close>, \<open>M = 2\<close>,
  \<open>R = 1\<close>, a waveform of one sample and the executor that computes the matrix product,
  the stale entry \<open>demodpad[0, 1] = 5\<close> makes \<open>CodeFreqCython\<close> return \<open>[[6, 1]]\<close> where
  \<open>DirectSumCython\<close> returns \<open>[[1, 1]]\<close>.
\<close>

theorem stale_pad_breaks_equivalence:
  "computes_scaled_dft (\<lambda>D. [buf D ! 0 + buf D ! 1, buf D ! 2 + buf D ! 3])
       \<lparr>shape0 = 1, shape1 = 2, buf = [1, 1]\<rparr> 1 [1] 1 [1, 1]
       \<lparr>demodpad = \<lparr>shape0 = 2, shape1 = 2, buf = [0, 5, 0, 0]\<rparr>,
        x_aligned = \<lparr>shape0 = 2, shape1 = 1, buf = [0, 0]\<rparr>\<rparr>
   \<and> CodeFreqCython (\<lambda>D. [buf D ! 0 + buf D ! 1, buf D ! 2 + buf D ! 3]) [1] 1 1 2 1
       \<lparr>demodpad = \<lparr>shape0 = 2, shape1 = 2, buf = [0, 5, 0, 0]\<rparr>,
        x_aligned = \<lparr>shape0 = 2, shape1 = 1, buf = [0, 0]\<rparr>\<rparr> [1, 1]
     = Inr (\<lparr>shape0 = 1, shape1 = 2, buf = [Some 6, Some 1]\<rparr>,
            \<lparr>demodpad = \<lparr>shape0 = 2, shape1 = 2, buf = [1, 5, 0, 1]\<rparr>,
             x_aligned = \<lparr>shape0 = 2, shape1 = 1, buf = [6, 1]\<rparr>\<rparr>)
   \<and> DirectSumCython [1] \<lparr>shape0 = 1, shape1 = 2, buf = [1, 1]\<rparr> 1 [1, 1]
     = Inr \<lparr>shape0 = 1, shape1 = 2, buf = [Some 1, Some 1]\<rparr>"
proof -
  have dem: "demodulated [1] (int (shape0 \<lparr>shape0 = 1, shape1 = 2, buf = [1, 1 :: complex]\<rparr>))
        (int (shape1 \<lparr>shape0 = 1, shape1 = 2, buf = [1, 1 :: complex]\<rparr>)) 1 [1, 1]
        \<lparr>demodpad = \<lparr>shape0 = 2, shape1 = 2, buf = [0, 5, 0, 0]\<rparr>,
         x_aligned = \<lparr>shape0 = 2, shape1 = 1, buf = [0, 0]\<rparr>\<rparr>
      = Inr \<lparr>shape0 = 2, shape1 = 2, buf = [1, 5, 0, 1]\<rparr>"
    by (simp add: demodulated_def demodulate_row_def kernel_eval)
  have "computes_scaled_dft (\<lambda>D. [buf D ! 0 + buf D ! 1, buf D ! 2 + buf D ! 3])
       \<lparr>shape0 = 1, shape1 = 2, buf = [1, 1]\<rparr> 1 [1] 1 [1, 1]
       \<lparr>demodpad = \<lparr>shape0 = 2, shape1 = 2, buf = [0, 5, 0, 0]\<rparr>,
        x_aligned = \<lparr>shape0 = 2, shape1 = 1, buf = [0, 0]\<rparr>\<rparr>"
    unfolding computes_scaled_dft_def dem
    by (auto simp: less_Suc_eq eval_nat_numeral lessThan_Suc)
  then show ?thesis by (simp add: codefreq_eval)
qed

text \<open>
  C3. The computed lower bound is \<open>ceil(p/R)\<close> (lemma \<open>mstart_ceiling\<close>), and for
  \<open>p + L \<ge> 1\<close> the computed upper bound is the floor formula and the window is the set of
  admissible \<open>m\<close> (lemmas \<open>mstop_floor\<close>, \<open>window_is_support\<close>); both kernels call the same
  \<open>mstart\<close> and \<open>mstop\<close>. For
  \<open>L = 0\<close>, \<open>p = 0\<close>, \<open>R = 2\<close>, \<open>M = 1\<close> the division of C truncates \<open>-1/2\<close> to \<open>0\<close>:
  the computed upper bound is \<open>1\<close> where the floor formula gives \<open>0\<close>, and the computed
  window holds \<open>m = 0\<close>, which violates \<open>R*m - p \<le> L - 1\<close>.
\<close>

theorem mstop_truncates_for_empty_waveform:
  "mstop 2 0 1 0 = 1
   \<and> min 1 (\<lfloor>real_of_int (0 + 0 - 1) / real_of_int 2\<rfloor> + 1) = (0 :: int)
   \<and> set (xrange (mstart 2 0) (mstop 2 0 1 0)) = {0}
   \<and> \<not> ((2 :: int) * 0 - 0 \<le> 0 - 1)"
  by (simp add: mstart_def mstop_def c_div_def xrange_unfold)

text \<open>
  C4. The claim is that every access of the kernels is in bounds when \<open>y\<close> has length
  \<open>M\<close>. For a non-empty waveform it is (lemmas \<open>window_reads_ok\<close>, \<open>demod_all_ok\<close>). For
  the empty waveform, \<open>R = 2\<close>, \<open>M = 1\<close> and \<open>y\<close> of length \<open>1\<close> the computed window of
  \<open>p = 0\<close> holds \<open>m = 0\<close>, and both kernels read \<open>s_conj[0]\<close> outside the empty buffer. The
  defect is the one of C1 and C3.
\<close>

theorem kernels_read_past_empty_waveform:
  "0 \<in> set (xrange (mstart 2 0) (mstop 2 (int (length ([] :: complex list))) 1 0))
   \<and> rd1 ([] :: complex list) (2 * 0 - 0) = Inl OutOfBounds
   \<and> direct_sum ([] :: complex list) \<lparr>shape0 = 1, shape1 = 1, buf = [1]\<rparr> 2 [1] = Inl OutOfBounds
   \<and> codefreq buf ([] :: complex list)
        \<lparr>demodpad = \<lparr>shape0 = 2, shape1 = 1, buf = [0, 0]\<rparr>,
         x_aligned = \<lparr>shape0 = 2, shape1 = 1, buf = [0, 0]\<rparr>\<rparr> 1 1 1 2 [1] = Inl OutOfBounds"
  by (simp add: codefreq_eval)




text \<open>
  C6. A call of the callable returned by \<open>CodeFreqCython\<close> that returns leaves the shape
  of \<open>demodpad\<close> and every cell of it outside the support windows as they were; cells
  outside the windows that were zero are zero after the call; and a second call, on the
  buffers as the first call left them, returns what the same call returns on the buffers
  as they were before the first call, output and buffers alike.
\<close>

theorem scratch_frame_and_repeated_calls:
  assumes "CodeFreqCython fft s step N M R bufs y1 = Inr (x1, bufs1)"
  shows "shape0 (demodpad bufs1) = shape0 (demodpad bufs)
     \<and> shape1 (demodpad bufs1) = shape1 (demodpad bufs)
     \<and> length (buf (demodpad bufs1)) = length (buf (demodpad bufs))
     \<and> (\<forall>k. \<not> window_cell R (int (length s)) M (shape1 (demodpad bufs)) k \<longrightarrow>
            buf (demodpad bufs1) ! k = buf (demodpad bufs) ! k)
     \<and> (zero_outside_windows R (int (length s)) M (demodpad bufs) \<longrightarrow>
          zero_outside_windows R (int (length s)) M (demodpad bufs1))
     \<and> CodeFreqCython fft s step N M R bufs1 y2 = CodeFreqCython fft s step N M R bufs y2"
proof -
  let ?s' = "map (\<lambda>z. cnj z / complex_of_real (sqrt (real_of_int N))) s"
  have "codefreq fft ?s' bufs step N M R y1 = Inr (x1, bufs1)"
    using assms by (simp add: CodeFreqCython_def)
  from codefreq_frame [OF this, of y2]
  have f: "shape0 (demodpad bufs1) = shape0 (demodpad bufs)"
    "shape1 (demodpad bufs1) = shape1 (demodpad bufs)"
    "length (buf (demodpad bufs1)) = length (buf (demodpad bufs))"
    "\<forall>k. \<not> window_cell R (int (length s)) M (shape1 (demodpad bufs)) k \<longrightarrow>
            buf (demodpad bufs1) ! k = buf (demodpad bufs) ! k"
    "codefreq fft ?s' bufs1 step N M R y2 = codefreq fft ?s' bufs step N M R y2"
    by simp_all
  have "zero_outside_windows R (int (length s)) M (demodpad bufs1)"
    if "zero_outside_windows R (int (length s)) M (demodpad bufs)"
    using that f(2,3,4) by (simp add: zero_outside_windows_def)
  then show ?thesis using f by (simp add: CodeFreqCython_def)
qed

theorem scratch_frame_and_repeated_calls_witness:
  "CodeFreqCython buf [1] 2 1 1 1
       \<lparr>demodpad = \<lparr>shape0 = 1, shape1 = 2, buf = [0, 7]\<rparr>,
        x_aligned = \<lparr>shape0 = 1, shape1 = 2, buf = [0, 0]\<rparr>\<rparr> [3]
     = Inr (\<lparr>shape0 = 1, shape1 = 1, buf = [Some 3]\<rparr>,
            \<lparr>demodpad = \<lparr>shape0 = 1, shape1 = 2, buf = [3, 7]\<rparr>,
             x_aligned = \<lparr>shape0 = 1, shape1 = 2, buf = [3, 7]\<rparr>\<rparr>)
   \<and> CodeFreqCython buf [1] 2 1 1 1
       \<lparr>demodpad = \<lparr>shape0 = 1, shape1 = 2, buf = [3, 7]\<rparr>,
        x_aligned = \<lparr>shape0 = 1, shape1 = 2, buf = [3, 7]\<rparr>\<rparr> [4]
     = CodeFreqCython buf [1] 2 1 1 1
       \<lparr>demodpad = \<lparr>shape0 = 1, shape1 = 2, buf = [0, 7]\<rparr>,
        x_aligned = \<lparr>shape0 = 1, shape1 = 2, buf = [0, 0]\<rparr>\<rparr> [4]"
proof -
  have h: "CodeFreqCython buf [1] 2 1 1 1
       \<lparr>demodpad = \<lparr>shape0 = 1, shape1 = 2, buf = [0, 7]\<rparr>,
        x_aligned = \<lparr>shape0 = 1, shape1 = 2, buf = [0, 0]\<rparr>\<rparr> [3]
     = Inr (\<lparr>shape0 = 1, shape1 = 1, buf = [Some 3]\<rparr>,
            \<lparr>demodpad = \<lparr>shape0 = 1, shape1 = 2, buf = [3, 7]\<rparr>,
             x_aligned = \<lparr>shape0 = 1, shape1 = 2, buf = [3, 7]\<rparr>\<rparr>)"
    by (simp add: codefreq_eval)
  show ?thesis using h scratch_frame_and_repeated_calls [OF h, of "[4]"] by blast
qed

text \<open>
  C7. For a waveform of one sample the window of \<open>q \<ge> 0\<close> is \<open>{q/R}\<close> when \<open>R\<close> divides
  \<open>q\<close> and \<open>q/R < M\<close>, and empty otherwise; the entry \<open>x[n, p]\<close> of the output is
  \<open>conj(s)[0] * dftmat[n, p/R] * y[p/R]\<close> when \<open>R\<close> divides \<open>p\<close> and \<open>0\<close> otherwise, for every
  \<open>p\<close> in \<open>[0, R*M)\<close>, the edges \<open>0\<close> and \<open>R*M - 1\<close> among them.
\<close>

theorem support_boundary_single_sample:
  assumes "contiguous dftmat" "length y = shape1 dftmat" "1 \<le> R" "length s = 1"
    and "0 \<le> q" and "n < shape0 dftmat" "p < nat (R * int (shape1 dftmat))"
  shows "{mstart R q..<mstop R (int (length s)) (int (shape1 dftmat)) q}
           = (if R dvd q \<and> q div R < int (shape1 dftmat) then {q div R} else {})
     \<and> (\<exists>x. DirectSumCython s dftmat R y = Inr x
           \<and> shape0 x = shape0 dftmat \<and> shape1 x = nat (R * int (shape1 dftmat))
           \<and> buf x ! (n * shape1 x + p)
               = Some (if R dvd int p
                       then cnj (s ! 0) * buf dftmat ! (n * shape1 dftmat + p div nat R) * y ! (p div nat R)
                       else 0))"
proof -
  let ?M = "int (shape1 dftmat)"
  have s: "s \<noteq> []" using assms(4) by auto
  have w: "{mstart R q..<mstop R 1 ?M q} = (if R dvd q \<and> q div R < ?M then {q div R} else {})"
    if "0 \<le> q" for q using window_L1 [OF that assms(3)] .
  have run: "DirectSumCython s dftmat R y = Inr (direct_sum_array (map cnj s) dftmat R y)"
    using assms(1-3) s by (intro DirectSumCython_ok) simp_all
  have pM: "int p < R * ?M" using assms(7) by simp
  have R: "0 < R" using assms(3) by simp
  have val: "entry_value (map cnj s) dftmat R y (int p) (int n) =
       (if R dvd int p
        then cnj (s ! 0) * buf dftmat ! (n * shape1 dftmat + p div nat R) * y ! (p div nat R)
        else 0)"
  proof (cases "R dvd int p")
    case True
    have "int p div R < ?M" using pM R by (simp add: div_less_iff_int)
    then have win: "{mstart R (int p)..<mstop R 1 ?M (int p)} = {int p div R}"
      using w [of "int p"] True by simp
    have i0: "R * (int p div R) - int p = 0" using True by simp
    have d: "int p div R = int (p div nat R)" using R by (simp add: zdiv_int)
    have "nat (int n * ?M + int (p div nat R)) = n * shape1 dftmat + p div nat R"
      by (simp add: nat_add_distrib nat_mult_distrib)
    then show ?thesis using True assms(4) win i0 d
      by (simp add: entry_value_sum summand_def del: of_nat_mult of_nat_add)
  next
    case False
    then show ?thesis using w [of "int p"] assms(4) by (simp add: entry_value_sum)
  qed
  show ?thesis
    using w [OF assms(5)] run assms(4,6,7) val
    by (simp add: direct_sum_array_nth)
qed

theorem support_boundary_single_sample_witness:
  "contiguous \<lparr>shape0 = 1, shape1 = 2, buf = [2, 3 :: complex]\<rparr>
   \<and> length [5, 7 :: complex] = shape1 \<lparr>shape0 = 1, shape1 = 2, buf = [2, 3 :: complex]\<rparr>
   \<and> (1 :: int) \<le> 2 \<and> length [\<i>] = 1 \<and> (0 :: int) \<le> 2
   \<and> (0 :: nat) < shape0 \<lparr>shape0 = 1, shape1 = 2, buf = [2, 3 :: complex]\<rparr>
   \<and> (2 :: nat) < nat (2 * int (shape1 \<lparr>shape0 = 1, shape1 = 2, buf = [2, 3 :: complex]\<rparr>))
   \<and> {mstart 2 2..<mstop 2 (int (length [\<i>])) 2 2} = {1}
   \<and> (\<exists>x. DirectSumCython [\<i>] \<lparr>shape0 = 1, shape1 = 2, buf = [2, 3]\<rparr> 2 [5, 7] = Inr x
          \<and> shape0 x = 1 \<and> shape1 x = 4 \<and> buf x ! 2 = Some (- \<i> * 3 * 7))"
proof -
  let ?D = "\<lparr>shape0 = 1, shape1 = 2, buf = [2, 3 :: complex]\<rparr>"
  have h: "contiguous ?D" "length [5, 7 :: complex] = shape1 ?D" "(1 :: int) \<le> 2"
    "length [\<i>] = 1" "(0 :: int) \<le> 2" "(0 :: nat) < shape0 ?D"
    "(2 :: nat) < nat (2 * int (shape1 ?D))"
    by (simp_all add: contiguous_def)
  show ?thesis
    using h support_boundary_single_sample [OF h] by (simp add: eval_nat_numeral)
qed

text \<open>
  C8. The callable returned by \<open>DirectSumCython\<close> is linear: for scalars \<open>a\<close>, \<open>b\<close> and
  signals \<open>y1\<close>, \<open>y2\<close> of length \<open>M\<close> its result on \<open>a*y1 + b*y2\<close> is the combination,
  entry by entry, of its results on \<open>y1\<close> and on \<open>y2\<close>. This holds for every waveform and
  every \<open>R\<close>; a call that reads out of bounds, as the empty waveform of C4 does, does so
  on all three signals alike. For \<open>R \<ge> 1\<close> and a non-empty waveform the calls return
  arrays \<open>N\<close> by \<open>R*M\<close> in which every entry is written.
\<close>

theorem DirectSumCython_is_linear:
  assumes "contiguous dftmat" "length y1 = shape1 dftmat" "length y2 = shape1 dftmat"
  shows "DirectSumCython s dftmat R (map2 (\<lambda>u v. a * u + b * v) y1 y2)
           = linear_combination a (DirectSumCython s dftmat R y1) b (DirectSumCython s dftmat R y2)
     \<and> (1 \<le> R \<and> s \<noteq> [] \<longrightarrow>
          (\<exists>x1 x2. DirectSumCython s dftmat R y1 = Inr x1 \<and> DirectSumCython s dftmat R y2 = Inr x2
             \<and> length (buf x1) = shape0 dftmat * (nat R * shape1 dftmat)
             \<and> length (buf x2) = shape0 dftmat * (nat R * shape1 dftmat)
             \<and> None \<notin> set (buf x1) \<and> None \<notin> set (buf x2)))"
proof -
  have len: "length y1 = length y2" using assms by simp
  have eq: "DirectSumCython s dftmat R (map2 (\<lambda>u v. a * u + b * v) y1 y2)
           = linear_combination a (DirectSumCython s dftmat R y1) b (DirectSumCython s dftmat R y2)"
    using direct_sum_combination [OF len, of "map cnj s" dftmat R a b]
    by (simp add: DirectSumCython_def)
  have ret: "\<exists>x1 x2. DirectSumCython s dftmat R y1 = Inr x1 \<and> DirectSumCython s dftmat R y2 = Inr x2
             \<and> length (buf x1) = shape0 dftmat * (nat R * shape1 dftmat)
             \<and> length (buf x2) = shape0 dftmat * (nat R * shape1 dftmat)
             \<and> None \<notin> set (buf x1) \<and> None \<notin> set (buf x2)"
    if "1 \<le> R" "s \<noteq> []"
  proof -
    have "DirectSumCython s dftmat R y1 = Inr (direct_sum_array (map cnj s) dftmat R y1)"
      "DirectSumCython s dftmat R y2 = Inr (direct_sum_array (map cnj s) dftmat R y2)"
      using assms that by (simp_all add: DirectSumCython_ok)
    moreover have "nat (R * int (shape1 dftmat)) = nat R * shape1 dftmat"
      using that(1) by (simp add: nat_mult_distrib)
    moreover have "None \<notin> set (buf (direct_sum_array (map cnj s) dftmat R y))" for y
      by (auto simp: direct_sum_array_def Let_def)
    ultimately show ?thesis by simp
  qed
  show ?thesis using eq ret by blast
qed

theorem DirectSumCython_is_linear_witness:
  "contiguous \<lparr>shape0 = 1, shape1 = 2, buf = [2, 3 :: complex]\<rparr>
   \<and> length [5, 7 :: complex] = shape1 \<lparr>shape0 = 1, shape1 = 2, buf = [2, 3 :: complex]\<rparr>
   \<and> length [1, 1 :: complex] = shape1 \<lparr>shape0 = 1, shape1 = 2, buf = [2, 3 :: complex]\<rparr>
   \<and> DirectSumCython [\<i>] \<lparr>shape0 = 1, shape1 = 2, buf = [2, 3]\<rparr> 2 [5, 7]
       = Inr \<lparr>shape0 = 1, shape1 = 4, buf = [Some (- 10 * \<i>), Some 0, Some (- 21 * \<i>), Some 0]\<rparr>
   \<and> DirectSumCython [\<i>] \<lparr>shape0 = 1, shape1 = 2, buf = [2, 3]\<rparr> 2 [1, 1]
       = Inr \<lparr>shape0 = 1, shape1 = 4, buf = [Some (- 2 * \<i>), Some 0, Some (- 3 * \<i>), Some 0]\<rparr>
   \<and> DirectSumCython [\<i>] \<lparr>shape0 = 1, shape1 = 2, buf = [2, 3]\<rparr> 2
         (map2 (\<lambda>u v. 3 * u + 4 * v) [5, 7] [1, 1])
       = Inr \<lparr>shape0 = 1, shape1 = 4,
               buf = [Some (3 * (- 10 * \<i>) + 4 * (- 2 * \<i>)), Some (3 * 0 + 4 * 0),
                      Some (3 * (- 21 * \<i>) + 4 * (- 3 * \<i>)), Some (3 * 0 + 4 * 0)]\<rparr>"
proof -
  let ?d = "\<lparr>shape0 = 1, shape1 = 2, buf = [2, 3 :: complex]\<rparr>"
  have h: "contiguous ?d" "length [5, 7 :: complex] = shape1 ?d" "length [1, 1 :: complex] = shape1 ?d"
    by (simp_all add: contiguous_def)
  have f1: "DirectSumCython [\<i>] ?d 2 [5, 7]
       = Inr \<lparr>shape0 = 1, shape1 = 4, buf = [Some (- 10 * \<i>), Some 0, Some (- 21 * \<i>), Some 0]\<rparr>"
    by (simp add: DirectSumCython_def kernel_eval)
  have f2: "DirectSumCython [\<i>] ?d 2 [1, 1]
       = Inr \<lparr>shape0 = 1, shape1 = 4, buf = [Some (- 2 * \<i>), Some 0, Some (- 3 * \<i>), Some 0]\<rparr>"
    by (simp add: DirectSumCython_def kernel_eval)
  have "DirectSumCython [\<i>] ?d 2 (map2 (\<lambda>u v. 3 * u + 4 * v) [5, 7] [1, 1])
      = linear_combination 3 (DirectSumCython [\<i>] ?d 2 [5, 7]) 4 (DirectSumCython [\<i>] ?d 2 [1, 1])"
    using DirectSumCython_is_linear [OF h, of "[\<i>]" 2 3 4] by blast
  then have "DirectSumCython [\<i>] ?d 2 (map2 (\<lambda>u v. 3 * u + 4 * v) [5, 7] [1, 1])
      = Inr \<lparr>shape0 = 1, shape1 = 4,
               buf = [Some (3 * (- 10 * \<i>) + 4 * (- 2 * \<i>)), Some (3 * 0 + 4 * 0),
                      Some (3 * (- 21 * \<i>) + 4 * (- 3 * \<i>)), Some (3 * 0 + 4 * 0)]\<rparr>"
    unfolding f1 f2 by (simp add: linear_combination_def and_then_def)
  then show ?thesis using h f1 f2 by blast
qed




text \<open>
  C10. Two runs of the kernel on the same inputs return the same result whatever the
  order in which the iterations of the \<open>prange\<close> loop are run, each iteration once. The
  numeric type has no law: \<open>+\<close> and \<open>*\<close> are any two operations, as in floating point,
  and the accumulation of one entry happens inside one iteration, in the order of \<open>m\<close>.
\<close>

theorem direct_sum_schedule_independent:
  assumes "mset ps1 = mset (prange (R * int (shape1 dftmat)))"
    and "mset ps2 = mset (prange (R * int (shape1 dftmat)))"
  shows "direct_sum_in_order ps1 s_conj dftmat R y = direct_sum_in_order ps2 s_conj dftmat R y
     \<and> (\<forall>x. direct_sum_in_order ps1 s_conj dftmat R y = Inr x \<longrightarrow>
          shape0 x = shape0 dftmat \<and> shape1 x = nat (R * int (shape1 dftmat))
          \<and> length (buf x) = shape0 dftmat * nat (R * int (shape1 dftmat))
          \<and> None \<notin> set (buf x))"
proof -
  have "set ps = {0..<R * int (shape1 dftmat)}"
    if "mset ps = mset (prange (R * int (shape1 dftmat)))" for ps
    using mset_eq_setD [OF that] by (simp add: prange_def set_xrange)
  then have ps: "set ps1 = {0..<R * int (shape1 dftmat)}" "set ps2 = {0..<R * int (shape1 dftmat)}"
    using assms by simp_all
  have eq: "direct_sum_in_order ps1 s_conj dftmat R y = direct_sum_in_order ps2 s_conj dftmat R y"
    using ps by (simp add: direct_sum_in_order_result)
  have written: "None \<notin> set (buf (direct_sum_array s_conj dftmat R y))"
    by (auto simp: direct_sum_array_def Let_def)
  have "shape0 x = shape0 dftmat \<and> shape1 x = nat (R * int (shape1 dftmat))
          \<and> length (buf x) = shape0 dftmat * nat (R * int (shape1 dftmat))
          \<and> None \<notin> set (buf x)"
    if "direct_sum_in_order ps1 s_conj dftmat R y = Inr x" for x
  proof -
    have "x = direct_sum_array s_conj dftmat R y"
      using that unfolding direct_sum_in_order_result [OF ps(1)] by (simp split: if_splits)
    then show ?thesis using written by simp
  qed
  then show ?thesis using eq by blast
qed

theorem direct_sum_schedule_independent_witness:
  "mset [1, 0] = mset (prange (1 * int (shape1 \<lparr>shape0 = 2, shape1 = 2, buf = [1, 1, 1, - 1 :: int]\<rparr>)))
   \<and> mset [0, 1] = mset (prange (1 * int (shape1 \<lparr>shape0 = 2, shape1 = 2, buf = [1, 1, 1, - 1 :: int]\<rparr>)))
   \<and> direct_sum_in_order [1, 0] [1, 2] \<lparr>shape0 = 2, shape1 = 2, buf = [1, 1, 1, - 1 :: int]\<rparr> 1 [1, 0]
     = direct_sum_in_order [0, 1] [1, 2] \<lparr>shape0 = 2, shape1 = 2, buf = [1, 1, 1, - 1 :: int]\<rparr> 1 [1, 0]"
proof -
  let ?D = "\<lparr>shape0 = 2, shape1 = 2, buf = [1, 1, 1, - 1 :: int]\<rparr>"
  have p: "prange (1 * int (shape1 ?D)) = [0, 1]"
    by (simp add: prange_def xrange_unfold)
  have h1: "mset [1, 0] = mset (prange (1 * int (shape1 ?D)))"
    and h2: "mset [0, 1] = mset (prange (1 * int (shape1 ?D)))"
    unfolding p by simp_all
  show ?thesis
    using h1 h2 direct_sum_schedule_independent [OF h1 h2, of "[1, 2]" "[1, 0]"] by blast
qed

end
